theory Spec2Isabelle
  imports Complex_Main "HOL-Library.Sublist" "HOL-Library.AList"
begin

section \<open>Dimension rounding on the edit path\<close>

text \<open>
  \<^verbatim>\<open>EditImageModal.on_submit\<close> parses width and height with \<^verbatim>\<open>int(...)\<close> and passes
  each through the local helper \<^verbatim>\<open>adjust_to_multiple_of_64\<close>. Python integers are
  unbounded and \<^verbatim>\<open>//\<close> is floor division, which is \<open>div\<close> on \<open>int\<close>.
\<close>

definition adjust_to_multiple_of_64 :: "int \<Rightarrow> int" where
  "adjust_to_multiple_of_64 v = (if v \<le> 0 then 64 else ((v + 63) div 64) * 64)"

section \<open>Rate limiter\<close>

text \<open>
  \<^verbatim>\<open>universal_cooldown_check\<close> wraps every interactive entry point. It reads three
  module-level configuration values (\<^verbatim>\<open>OWNER_IDS\<close>, \<^verbatim>\<open>EXEMPT_ROLES\<close>,
  \<^verbatim>\<open>MAX_INTERACTIONS_PER_MINUTE\<close>, all parsed from the environment) and mutates the
  module-level \<^verbatim>\<open>user_interaction_timestamps = defaultdict(list)\<close>. A defaultdict of
  lists is a total function with default \<open>[]\<close>. Timestamps are the floats returned by
  \<^verbatim>\<open>time.time()\<close>; they are modelled as reals, so the rounding of the float
  subtraction \<^verbatim>\<open>current_time - ts\<close> is not represented.
\<close>

record limiter_config =
  OWNER_IDS :: "int list"
  EXEMPT_ROLES :: "string set"
  MAX_INTERACTIONS_PER_MINUTE :: int

text \<open>
  \<^verbatim>\<open>interaction.user\<close> is either a \<^verbatim>\<open>discord.Member\<close>, which carries roles, or a
  plain \<^verbatim>\<open>discord.User\<close>, which does not.
\<close>

datatype account = Member (role_names: "string list") | PlainUser

record interaction =
  user_id :: int
  user :: account

type_synonym timestamps = "int \<Rightarrow> real list"

text \<open>
  \<^verbatim>\<open>str.lower\<close> on ASCII text: the letters A to Z go to a to z and every other
  character is kept. Python also lower-cases capital letters outside ASCII; role names
  with such letters are outside this model.
\<close>

definition lower_char :: "char \<Rightarrow> char" where
  "lower_char c =
     (case map_of (zip ''ABCDEFGHIJKLMNOPQRSTUVWXYZ'' ''abcdefghijklmnopqrstuvwxyz'') c of
        Some d \<Rightarrow> d
      | None \<Rightarrow> c)"

definition lower :: "string \<Rightarrow> string" where
  "lower s = map lower_char s"

text \<open>
  The local flag \<^verbatim>\<open>is_exempt\<close>: the user is a member and the set of its lower-cased
  role names meets \<^verbatim>\<open>EXEMPT_ROLES\<close>.
\<close>

definition is_exempt :: "limiter_config \<Rightarrow> interaction \<Rightarrow> bool" where
  "is_exempt cfg i =
     (case user i of
        Member rs \<Rightarrow> EXEMPT_ROLES cfg \<inter> lower ` set rs \<noteq> {}
      | PlainUser \<Rightarrow> False)"

text \<open>The list comprehension \<^verbatim>\<open>[ts for ts in ... if current_time - ts < 60]\<close>.\<close>

definition recent :: "real \<Rightarrow> real list \<Rightarrow> real list" where
  "recent current_time tss = filter (\<lambda>ts. current_time - ts < 60) tss"

text \<open>
  The wrapper either calls the wrapped function (\<open>Admitted\<close>) or sends the ephemeral
  message naming the configured limit and returns (\<open>Rejected\<close>). The owner test comes
  first and returns before the table is touched; the rejection branch returns after the
  pruned list has been stored and before the append.
\<close>

datatype admission = Admitted | Rejected int

definition universal_cooldown_check ::
  "limiter_config \<Rightarrow> timestamps \<Rightarrow> interaction \<Rightarrow> real \<Rightarrow> admission \<times> timestamps" where
  "universal_cooldown_check cfg tab i current_time =
     (if user_id i \<in> set (OWNER_IDS cfg) then (Admitted, tab)
      else
        let tab1 = tab (user_id i := recent current_time (tab (user_id i)))
        in if \<not> is_exempt cfg i
              \<and> int (length (tab1 (user_id i))) \<ge> MAX_INTERACTIONS_PER_MINUTE cfg
           then (Rejected (MAX_INTERACTIONS_PER_MINUTE cfg), tab1)
           else (Admitted, tab1 (user_id i := tab1 (user_id i) @ [current_time])))"

section \<open>Caches and context assembly\<close>

subsection \<open>String helpers\<close>

text \<open>
  \<^verbatim>\<open>str.strip()\<close> removes leading and trailing whitespace; the model knows the ASCII
  whitespace characters. Python also strips the Unicode spaces outside ASCII, which this
  model keeps; texts with such characters at their ends are outside it.
  \<^verbatim>\<open>sep.join(xs)\<close> puts the separator between the parts.
\<close>

definition is_space :: "char \<Rightarrow> bool" where
  "is_space c \<longleftrightarrow>
     c \<in> set [CHR '' '', CHR 0x09, CHR 0x0A, CHR 0x0B, CHR 0x0C, CHR 0x0D,
               CHR 0x1C, CHR 0x1D, CHR 0x1E, CHR 0x1F]"

definition strip :: "string \<Rightarrow> string" where
  "strip s = rev (dropWhile is_space (rev (dropWhile is_space s)))"

fun join :: "string \<Rightarrow> string list \<Rightarrow> string" where
  "join sep [] = []"
| "join sep [x] = x"
| "join sep (x # y # ys) = x @ sep @ join sep (y # ys)"

subsection \<open>URL-content cache\<close>

text \<open>
  \<^verbatim>\<open>url_cache: Dict[str, Tuple[Optional[str], float]]\<close> maps a URL to the fetched
  summary (or \<^verbatim>\<open>None\<close>, a remembered failure) and the time of the fetch.
\<close>

type_synonym url_cache = "string \<rightharpoonup> (string option \<times> real)"

definition URL_CACHE_TTL :: real where
  "URL_CACHE_TTL = 3600"

text \<open>\<^verbatim>\<open>if content: url_contents.append(content)\<close>: \<^verbatim>\<open>None\<close> and the empty string are falsy.\<close>

definition append_content :: "string option \<Rightarrow> string list \<Rightarrow> string list" where
  "append_content c url_contents =
     (case c of
        None \<Rightarrow> url_contents
      | Some s \<Rightarrow> if s = [] then url_contents else url_contents @ [s])"

text \<open>
  The body of \<^verbatim>\<open>for url in urls\<close>. \<open>content\<close> is what
  \<^verbatim>\<open>await extract_url_content(url, session)\<close> returns if it is called; it is called only
  when the URL is not in the cache or its entry is \<^verbatim>\<open>URL_CACHE_TTL\<close> old or older.
\<close>

definition process_url ::
  "string option \<Rightarrow> real \<Rightarrow> url_cache \<times> string list \<Rightarrow> string \<Rightarrow> url_cache \<times> string list"
  where
  "process_url content current_time st url =
     (let (cache, url_contents) = st;
          fetched = (cache (url \<mapsto> (content, current_time)),
                     append_content content url_contents)
      in case cache url of
           Some (cached_content, timestamp) \<Rightarrow>
             if current_time - timestamp < URL_CACHE_TTL
             then (cache, append_content cached_content url_contents)
             else fetched
         | None \<Rightarrow> fetched)"

text \<open>
  The clean-up at the end of \<^verbatim>\<open>fetch_recent_messages\<close>: \<^verbatim>\<open>expired_urls\<close> collects the
  keys whose entry is strictly older than the TTL, then each is deleted.
\<close>

definition expired_urls :: "real \<Rightarrow> url_cache \<Rightarrow> string \<Rightarrow> bool" where
  "expired_urls current_time cache url =
     (case cache url of
        Some (_, timestamp) \<Rightarrow> current_time - timestamp > URL_CACHE_TTL
      | None \<Rightarrow> False)"

definition purge_url_cache :: "real \<Rightarrow> url_cache \<Rightarrow> url_cache" where
  "purge_url_cache current_time cache =
     (\<lambda>url. if expired_urls current_time cache url then None else cache url)"

subsection \<open>Image-description cache\<close>

text \<open>
  \<^verbatim>\<open>image_history\<close> maps a message id to the record that
  \<^verbatim>\<open>process_image_attachment\<close> stores; \<open>timestamp\<close> is \<^verbatim>\<open>datetime.utcnow()\<close> at that
  moment, in seconds.
\<close>

record image_info =
  description :: string
  author :: string
  timestamp :: real
  channel_id :: int

type_synonym image_history = "int \<rightharpoonup> image_info"

text \<open>
  The lookup inside the message loop tests \<^verbatim>\<open>msg.id in image_history\<close> and nothing
  else; it takes no clock reading.
\<close>

definition add_image_description :: "image_history \<Rightarrow> int \<Rightarrow> string \<Rightarrow> string" where
  "add_image_description hist mid message_content =
     (case hist mid of
        None \<Rightarrow> message_content
      | Some img_info \<Rightarrow>
          if strip message_content = []
          then ''[shares an image: '' @ description img_info @ '']''
          else message_content @ '' [shares an image: '' @ description img_info @ '']'')"

definition old_messages :: "real \<Rightarrow> image_history \<Rightarrow> int \<Rightarrow> bool" where
  "old_messages current_time hist mid =
     (case hist mid of
        Some info \<Rightarrow> current_time - timestamp info > 3600
      | None \<Rightarrow> False)"

definition purge_image_history :: "real \<Rightarrow> image_history \<Rightarrow> image_history" where
  "purge_image_history current_time hist =
     (\<lambda>mid. if old_messages current_time hist mid then None else hist mid)"

subsection \<open>Context assembler\<close>

text \<open>
  A channel message as the loop reads it. \<open>author_is_bot\<close> is the test
  \<^verbatim>\<open>msg.author == bot.user\<close>.
\<close>

record message =
  msg_id :: int
  author_name :: string
  author_is_bot :: bool
  msg_content :: string

text \<open>The dictionary \<^verbatim>\<open>{"role": ..., "content": ...}\<close> handed to the language model.\<close>

record formatted_message =
  role :: string
  content :: string

text \<open>
  What the assembler takes from outside: \<^verbatim>\<open>extract_urls\<close> (a regular-expression scan
  cut to \<^verbatim>\<open>MAX_URLS_PER_MESSAGE\<close>), the result of the \<open>n\<close>-th possible call of
  \<^verbatim>\<open>extract_url_content\<close>, the \<open>n\<close>-th reading of \<^verbatim>\<open>time.time()\<close>, and the reading of
  \<^verbatim>\<open>datetime.utcnow()\<close> at the clean-up. The properties below hold for every choice of
  them.
\<close>

record outside =
  extract_urls :: "string \<Rightarrow> string list"
  extract_url_content :: "string \<Rightarrow> nat \<Rightarrow> string option"
  time_time :: "nat \<Rightarrow> real"
  utcnow :: real

text \<open>
  The mutable state of one call: the URL cache, the set \<^verbatim>\<open>seen_messages\<close>, and the
  number of clock readings taken so far.
\<close>

record loop_state =
  cache :: url_cache
  seen_messages :: "string set"
  ticks :: nat

fun process_urls ::
  "outside \<Rightarrow> nat \<Rightarrow> url_cache \<times> string list \<Rightarrow> string list \<Rightarrow> nat \<times> url_cache \<times> string list"
  where
  "process_urls out n st [] = (n, st)"
| "process_urls out n st (url # urls) =
     process_urls out (Suc n)
       (process_url (extract_url_content out url n) (time_time out n) st url) urls"

text \<open>
  The body of \<^verbatim>\<open>async for msg in channel.history(...)\<close> up to the formatted message:
  \<open>None\<close> stands for \<^verbatim>\<open>continue\<close>.
\<close>

definition process_message ::
  "outside \<Rightarrow> int option \<Rightarrow> image_history \<Rightarrow> loop_state \<Rightarrow> message
     \<Rightarrow> loop_state \<times> formatted_message option" where
  "process_message out current_message_id hist st msg =
     (if prefix ''!'' (msg_content msg)
         \<or> (author_is_bot msg \<and> sublist ''Generated Image'' (msg_content msg))
      then (st, None)
      else if (case current_message_id of
                 Some c \<Rightarrow> c \<noteq> 0 \<and> msg_id msg = c
               | None \<Rightarrow> False)
      then (st, None)
      else
        let (n, cache', url_contents) =
              process_urls out (ticks st) (cache st, []) (extract_urls out (msg_content msg));
            message_content =
              (if url_contents \<noteq> []
               then msg_content msg @ [CHR 0x0A] @ join '' '' url_contents
               else msg_content msg);
            message_content = add_image_description hist (msg_id msg) message_content;
            message_key = author_name msg @ '':'' @ message_content;
            st' = st\<lparr>cache := cache', ticks := n\<rparr>
        in if message_key \<in> seen_messages st' then (st', None)
           else (st'\<lparr>seen_messages := insert message_key (seen_messages st')\<rparr>,
                 Some \<lparr>role = (if author_is_bot msg then ''assistant'' else ''user''),
                       content = author_name msg @ '': '' @ message_content\<rparr>))"

text \<open>
  The loop with its two lists: a formatted message goes to \<^verbatim>\<open>current_topic_messages\<close>
  while that list holds fewer than 5, and to \<^verbatim>\<open>background_messages\<close> afterwards.
\<close>

fun history_loop ::
  "outside \<Rightarrow> int option \<Rightarrow> image_history \<Rightarrow> loop_state
     \<Rightarrow> formatted_message list \<Rightarrow> formatted_message list \<Rightarrow> message list
     \<Rightarrow> loop_state \<times> formatted_message list \<times> formatted_message list" where
  "history_loop out cmid hist st current_topic_messages background_messages [] =
     (st, current_topic_messages, background_messages)"
| "history_loop out cmid hist st current_topic_messages background_messages (msg # msgs) =
     (case process_message out cmid hist st msg of
        (st', None) \<Rightarrow>
          history_loop out cmid hist st' current_topic_messages background_messages msgs
      | (st', Some formatted) \<Rightarrow>
          if length current_topic_messages < 5
          then history_loop out cmid hist st'
                 (current_topic_messages @ [formatted]) background_messages msgs
          else history_loop out cmid hist st'
                 current_topic_messages (background_messages @ [formatted]) msgs)"

text \<open>
  \<^verbatim>\<open>fetch_recent_messages\<close>. \<open>history\<close> is what
  \<^verbatim>\<open>channel.history(limit=limit, oldest_first=False)\<close> yields. The two module-level
  caches go in and come out; the result is the reversed concatenation of the two lists.
\<close>

record caches =
  url_cache :: url_cache
  image_history :: image_history

definition fetch_recent_messages ::
  "outside \<Rightarrow> int option \<Rightarrow> caches \<Rightarrow> message list \<Rightarrow> formatted_message list \<times> caches"
  where
  "fetch_recent_messages out current_message_id cs history =
     (let (st, current_topic_messages, background_messages) =
            history_loop out current_message_id (image_history cs)
              \<lparr>cache = url_cache cs, seen_messages = {}, ticks = 0\<rparr> [] [] history;
          hist' = purge_image_history (utcnow out) (image_history cs);
          cache' = purge_url_cache (time_time out (ticks st)) (cache st);
          message_history = current_topic_messages @ background_messages
      in (rev message_history, \<lparr>url_cache = cache', image_history = hist'\<rparr>))"

text \<open>
  The messages for which the loop body builds a formatted message, each with that
  message, in the order of the iteration.
\<close>

fun kept ::
  "outside \<Rightarrow> int option \<Rightarrow> image_history \<Rightarrow> loop_state \<Rightarrow> message list
     \<Rightarrow> (message \<times> formatted_message) list" where
  "kept out cmid hist st [] = []"
| "kept out cmid hist st (msg # msgs) =
     (case process_message out cmid hist st msg of
        (st', None) \<Rightarrow> kept out cmid hist st' msgs
      | (st', Some formatted) \<Rightarrow> (msg, formatted) # kept out cmid hist st' msgs)"

text \<open>
  A window of eight messages, newest first, for the concrete runs below: six plain
  messages, one command and one repeated utterance. Nothing is fetched and both caches
  are empty.
\<close>

definition sample_history :: "message list" where
  "sample_history =
     [\<lparr>msg_id = 8, author_name = ''ann'', author_is_bot = False, msg_content = ''h''\<rparr>,
      \<lparr>msg_id = 7, author_name = ''bob'', author_is_bot = False, msg_content = ''!flux''\<rparr>,
      \<lparr>msg_id = 6, author_name = ''soupy'', author_is_bot = True, msg_content = ''g''\<rparr>,
      \<lparr>msg_id = 5, author_name = ''ann'', author_is_bot = False, msg_content = ''f''\<rparr>,
      \<lparr>msg_id = 4, author_name = ''bob'', author_is_bot = False, msg_content = ''e''\<rparr>,
      \<lparr>msg_id = 3, author_name = ''ann'', author_is_bot = False, msg_content = ''h''\<rparr>,
      \<lparr>msg_id = 2, author_name = ''bob'', author_is_bot = False, msg_content = ''d''\<rparr>,
      \<lparr>msg_id = 1, author_name = ''ann'', author_is_bot = False, msg_content = ''c''\<rparr>]"

definition quiet :: outside where
  "quiet = \<lparr>extract_urls = (\<lambda>_. []), extract_url_content = (\<lambda>_ _. None),
             time_time = (\<lambda>_. 0), utcnow = 0\<rparr>"

definition no_caches :: caches where
  "no_caches = \<lparr>url_cache = Map.empty, image_history = Map.empty\<rparr>"

section \<open>User statistics store\<close>

text \<open>
  \<^verbatim>\<open>user_stats.json\<close> is a JSON object from user id (as a string) to that user's data.
  In the current format the data holds \<^verbatim>\<open>'username'\<close> and \<^verbatim>\<open>'servers'\<close>, a dictionary
  from \<^verbatim>\<open>'global'\<close> or a server id (as a string) to three counters. In the older
  format the counters sit at the top of the user's data and there is no
  \<^verbatim>\<open>'servers'\<close> key. The top-level object is kept as an association list, since
  \<^verbatim>\<open>read_user_stats\<close> iterates over it.
\<close>

record bucket =
  images_generated :: int
  chat_responses :: int
  mentions :: int

record user_data =
  username :: "string option"
  servers :: "(string \<rightharpoonup> bucket) option"
  flat :: "string \<rightharpoonup> int"

type_synonym document = "(string \<times> user_data) list"

definition zero_bucket :: bucket where
  "zero_bucket = \<lparr>images_generated = 0, chat_responses = 0, mentions = 0\<rparr>"

text \<open>\<^verbatim>\<open>str(n)\<close> for a Python integer: decimal digits, with a minus sign when negative.\<close>

definition digit_char :: "nat \<Rightarrow> char" where
  "digit_char d = ''0123456789'' ! d"

fun digits :: "nat \<Rightarrow> string" where
  "digits n = (if n < 10 then [digit_char n] else digits (n div 10) @ [digit_char (n mod 10)])"

declare digits.simps [simp del]

definition str :: "int \<Rightarrow> string" where
  "str i = (if i < 0 then CHR ''-'' # digits (nat (- i)) else digits (nat i))"

text \<open>
  \<^verbatim>\<open>bucket[stat]\<close> and \<^verbatim>\<open>bucket[stat] += 1\<close>: a name that is not one of the three keys
  raises \<^verbatim>\<open>KeyError\<close>.
\<close>

definition get_stat :: "bucket \<Rightarrow> string \<Rightarrow> int option" where
  "get_stat b stat =
     (if stat = ''images_generated'' then Some (images_generated b)
      else if stat = ''chat_responses'' then Some (chat_responses b)
      else if stat = ''mentions'' then Some (mentions b)
      else None)"

definition add_one :: "string \<Rightarrow> bucket \<Rightarrow> string + bucket" where
  "add_one stat b =
     (if stat = ''images_generated'' then Inr (b\<lparr>images_generated := images_generated b + 1\<rparr>)
      else if stat = ''chat_responses'' then Inr (b\<lparr>chat_responses := chat_responses b + 1\<rparr>)
      else if stat = ''mentions'' then Inr (b\<lparr>mentions := mentions b + 1\<rparr>)
      else Inl (''KeyError: '' @ stat))"

text \<open>\<^verbatim>\<open>if server_id:\<close> on an \<^verbatim>\<open>Optional[int]\<close>: \<^verbatim>\<open>None\<close> and \<^verbatim>\<open>0\<close> are falsy.\<close>

definition given :: "int option \<Rightarrow> bool" where
  "given server_id = (case server_id of None \<Rightarrow> False | Some s \<Rightarrow> s \<noteq> 0)"

text \<open>
  The part of \<^verbatim>\<open>increment_user_stat\<close> that works on the user's own data, once the
  entry exists: the user name is refreshed when \<^verbatim>\<open>bot.get_user\<close> knows the user
  (\<open>name\<close>); for a given server id a missing \<^verbatim>\<open>'servers'\<close> dictionary and a missing
  server bucket are created; \<^verbatim>\<open>stats[...]['servers']\<close> is then read, which raises
  \<^verbatim>\<open>KeyError\<close> when the key is still missing; a missing \<^verbatim>\<open>'global'\<close> bucket is
  created; the global counter and, for a given server id, the server counter go up.
\<close>

definition increment_entry ::
  "string option \<Rightarrow> string \<Rightarrow> int option \<Rightarrow> user_data \<Rightarrow> string + user_data" where
  "increment_entry name stat server_id ud0 =
     (let ud1 = (case name of Some n \<Rightarrow> ud0\<lparr>username := Some n\<rparr> | None \<Rightarrow> ud0);
          ud2 = (if given server_id then
                   let sv = (case servers ud1 of None \<Rightarrow> Map.empty | Some sv \<Rightarrow> sv);
                       k = str (the server_id)
                   in ud1\<lparr>servers := Some (if sv k = None then sv (k \<mapsto> zero_bucket) else sv)\<rparr>
                 else ud1)
      in case servers ud2 of
           None \<Rightarrow> Inl ''KeyError: servers''
         | Some sv \<Rightarrow>
             let sv1 = (if sv ''global'' = None then sv (''global'' \<mapsto> zero_bucket) else sv)
             in case sv1 ''global'' of
                  None \<Rightarrow> Inl ''KeyError: global''
                | Some g \<Rightarrow>
                    (case add_one stat g of
                       Inl e \<Rightarrow> Inl e
                     | Inr g' \<Rightarrow>
                         let sv2 = sv1 (''global'' \<mapsto> g')
                         in if given server_id then
                              (case sv2 (str (the server_id)) of
                                 None \<Rightarrow> Inl (''KeyError: '' @ str (the server_id))
                               | Some b \<Rightarrow>
                                   (case add_one stat b of
                                      Inl e \<Rightarrow> Inl e
                                    | Inr b' \<Rightarrow>
                                        Inr (ud2\<lparr>servers :=
                                          Some (sv2 (str (the server_id) \<mapsto> b'))\<rparr>)))
                            else Inr (ud2\<lparr>servers := Some sv2\<rparr>)))"

text \<open>The entry that is created for a user id not yet in the document.\<close>

definition new_user :: user_data where
  "new_user = \<lparr>username = Some ''Unknown'',
               servers = Some (Map.empty (''global'' \<mapsto> zero_bucket)),
               flat = Map.empty\<rparr>"

text \<open>
  \<^verbatim>\<open>increment_user_stat\<close> between its read and its write: from the document that
  \<^verbatim>\<open>read_user_stats\<close> returned to the document handed to \<^verbatim>\<open>write_user_stats\<close>, or
  the exception that ends the call before the write. \<open>get_user\<close> is
  \<^verbatim>\<open>bot.get_user\<close>, reduced to the name of the user it finds.
\<close>

definition increment_stats ::
  "(int \<Rightarrow> string option) \<Rightarrow> int \<Rightarrow> string \<Rightarrow> int option \<Rightarrow> document \<Rightarrow> string + document"
  where
  "increment_stats get_user uid stat server_id stats =
     (let str_user_id = str uid;
          stats1 = (if map_of stats str_user_id = None
                    then AList.update str_user_id new_user stats else stats)
      in case map_of stats1 str_user_id of
           None \<Rightarrow> Inl (''KeyError: '' @ str_user_id)
         | Some ud \<Rightarrow>
             (case increment_entry (get_user uid) stat server_id ud of
                Inl e \<Rightarrow> Inl e
              | Inr ud' \<Rightarrow> Inr (AList.update str_user_id ud' stats1)))"

text \<open>
  The counter \<^verbatim>\<open>stats[str(user_id)]['servers'][key][stat]\<close>, read as 0 when the user,
  the \<^verbatim>\<open>'servers'\<close> dictionary, the bucket or the statistic does not exist.
\<close>

definition stat_of :: "bucket \<Rightarrow> string \<Rightarrow> int" where
  "stat_of b stat = (case get_stat b stat of None \<Rightarrow> 0 | Some n \<Rightarrow> n)"

definition entry_counter :: "user_data \<Rightarrow> string \<Rightarrow> string \<Rightarrow> int" where
  "entry_counter ud key stat =
     (case servers ud of
        None \<Rightarrow> 0
      | Some sv \<Rightarrow> (case sv key of None \<Rightarrow> 0 | Some b \<Rightarrow> stat_of b stat))"

definition counter :: "document \<Rightarrow> int \<Rightarrow> string \<Rightarrow> string \<Rightarrow> int" where
  "counter stats uid key stat =
     (case map_of stats (str uid) of
        None \<Rightarrow> 0
      | Some ud \<Rightarrow> entry_counter ud key stat)"

text \<open>The three statistics that the docstring of \<^verbatim>\<open>increment_user_stat\<close> names.\<close>

definition stat_names :: "string list" where
  "stat_names = [''images_generated'', ''chat_responses'', ''mentions'']"

text \<open>A document in which every user has the \<^verbatim>\<open>'servers'\<close> dictionary.\<close>

definition current_format :: "document \<Rightarrow> bool" where
  "current_format stats = list_all (\<lambda>(uid, ud). servers ud \<noteq> None) stats"

subsection \<open>The durable store and its lock\<close>

text \<open>
  What \<^verbatim>\<open>json.loads(USER_STATS_FILE.read_text())\<close> meets: a file that cannot be read or
  decoded, or a document.
\<close>

datatype file_content = Unreadable | Parsed document

text \<open>
  The store: the file, whether \<^verbatim>\<open>user_stats_lock\<close> is held, and the steps taken on
  the lock and the file, in order. \<open>WriteFailed\<close> is a \<^verbatim>\<open>write_text\<close> that raised.
\<close>

datatype io_event = Acquire | ReadFile | WriteFile | WriteFailed | Release

record store =
  user_stats_file :: file_content
  locked :: bool
  events :: "io_event list"

text \<open>
  The conversion of the old format in \<^verbatim>\<open>read_user_stats\<close>: it is applied when the
  document is not empty and no user has \<^verbatim>\<open>'servers'\<close>.
\<close>

definition convert :: "string \<times> user_data \<Rightarrow> string \<times> user_data" where
  "convert e =
     (let (uid, stats) = e;
          get = (\<lambda>k. case flat stats k of None \<Rightarrow> 0 | Some n \<Rightarrow> n)
      in (uid,
          \<lparr>username = Some (case username stats of None \<Rightarrow> ''Unknown'' | Some n \<Rightarrow> n),
           servers = Some (Map.empty (''global'' \<mapsto>
             \<lparr>images_generated = get ''images_generated'',
              chat_responses = get ''chat_responses'',
              mentions = get ''mentions''\<rparr>)),
           flat = Map.empty\<rparr>))"

text \<open>
  The body of the \<^verbatim>\<open>try\<close> in \<^verbatim>\<open>read_user_stats\<close>; both \<^verbatim>\<open>except\<close> clauses return
  the empty dictionary.
\<close>

definition load :: "file_content \<Rightarrow> document" where
  "load f =
     (case f of
        Unreadable \<Rightarrow> []
      | Parsed data \<Rightarrow>
          if data \<noteq> [] \<and> \<not> list_ex (\<lambda>(uid, ud). servers ud \<noteq> None) data
          then map convert data
          else data)"

text \<open>
  \<^verbatim>\<open>read_user_stats\<close> and \<^verbatim>\<open>write_user_stats\<close>. Entering
  \<^verbatim>\<open>async with user_stats_lock\<close> suspends the caller when the lock is held (\<open>None\<close>);
  on a free lock it goes on at once. Inside the block nothing is awaited: the lock is
  taken, the file is touched, the lock is released. A write that raises is logged and the
  function returns as usual; \<open>write_ok\<close> says whether \<^verbatim>\<open>write_text\<close> succeeds.
\<close>

definition read_user_stats :: "store \<Rightarrow> (document \<times> store) option" where
  "read_user_stats s =
     (if locked s then None
      else
        let s1 = s\<lparr>locked := True, events := events s @ [Acquire]\<rparr>;
            data = load (user_stats_file s1);
            s2 = s1\<lparr>events := events s1 @ [ReadFile]\<rparr>;
            s3 = s2\<lparr>locked := False, events := events s2 @ [Release]\<rparr>
        in Some (data, s3))"

definition write_user_stats :: "bool \<Rightarrow> document \<Rightarrow> store \<Rightarrow> store option" where
  "write_user_stats write_ok data s =
     (if locked s then None
      else
        let s1 = s\<lparr>locked := True, events := events s @ [Acquire]\<rparr>;
            s2 = (if write_ok
                  then s1\<lparr>user_stats_file := Parsed data, events := events s1 @ [WriteFile]\<rparr>
                  else s1\<lparr>events := events s1 @ [WriteFailed]\<rparr>);
            s3 = s2\<lparr>locked := False, events := events s2 @ [Release]\<rparr>
        in Some s3)"

text \<open>
  A call of \<^verbatim>\<open>increment_user_stat\<close> as the scheduler sees it: called and not yet run,
  suspended at the lock of the read, suspended at the lock of the write with the
  changed document in hand, or ended, with the message of the exception if one ended it.
  The function awaits nothing but \<^verbatim>\<open>read_user_stats\<close> and \<^verbatim>\<open>write_user_stats\<close>, so
  these are its only suspension points.
\<close>

datatype increment_task =
  Called int string "int option"
| AwaitingRead int string "int option"
| AwaitingWrite document
| Ended "string option"

definition enter_write :: "bool \<Rightarrow> document \<Rightarrow> store \<Rightarrow> increment_task \<times> store" where
  "enter_write write_ok stats s =
     (case write_user_stats write_ok stats s of
        None \<Rightarrow> (AwaitingWrite stats, s)
      | Some s' \<Rightarrow> (Ended None, s'))"

definition enter_read ::
  "(int \<Rightarrow> string option) \<Rightarrow> bool \<Rightarrow> int \<Rightarrow> string \<Rightarrow> int option \<Rightarrow> store
     \<Rightarrow> increment_task \<times> store" where
  "enter_read get_user write_ok uid stat server_id s =
     (case read_user_stats s of
        None \<Rightarrow> (AwaitingRead uid stat server_id, s)
      | Some (stats, s1) \<Rightarrow>
          (case increment_stats get_user uid stat server_id stats of
             Inl e \<Rightarrow> (Ended (Some e), s1)
           | Inr stats' \<Rightarrow> enter_write write_ok stats' s1))"

text \<open>One scheduling of a call: it runs from where it stands to its next suspension or its end.\<close>

fun resume ::
  "(int \<Rightarrow> string option) \<Rightarrow> bool \<Rightarrow> increment_task \<Rightarrow> store \<Rightarrow> increment_task \<times> store"
  where
  "resume get_user write_ok (Called uid stat server_id) s =
     enter_read get_user write_ok uid stat server_id s"
| "resume get_user write_ok (AwaitingRead uid stat server_id) s =
     enter_read get_user write_ok uid stat server_id s"
| "resume get_user write_ok (AwaitingWrite stats) s = enter_write write_ok stats s"
| "resume get_user write_ok (Ended r) s = (Ended r, s)"

text \<open>\<^verbatim>\<open>increment_user_stat\<close>, from the call to its first suspension or its end.\<close>

definition increment_user_stat ::
  "(int \<Rightarrow> string option) \<Rightarrow> bool \<Rightarrow> int \<Rightarrow> string \<Rightarrow> int option \<Rightarrow> store
     \<Rightarrow> increment_task \<times> store" where
  "increment_user_stat get_user write_ok uid stat server_id s =
     resume get_user write_ok (Called uid stat server_id) s"

text \<open>
  Several calls on one event loop: the loop schedules one call at a time, and a scheduled
  call runs until it suspends or ends. A schedule names, step by step, the call that
  runs and whether a write it attempts succeeds.
\<close>

fun schedule ::
  "(int \<Rightarrow> string option) \<Rightarrow> (nat \<times> bool) list \<Rightarrow> increment_task list \<times> store
     \<Rightarrow> increment_task list \<times> store" where
  "schedule get_user [] c = c"
| "schedule get_user ((k, write_ok) # rest) (ts, s) =
     (if k < length ts
      then (case resume get_user write_ok (ts ! k) s of
              (t', s') \<Rightarrow> schedule get_user rest (ts [k := t'], s'))
      else schedule get_user rest (ts, s))"

text \<open>The counters of a store, read from its file as \<^verbatim>\<open>read_user_stats\<close> reads it.\<close>

definition stored_counter :: "store \<Rightarrow> int \<Rightarrow> string \<Rightarrow> string \<Rightarrow> int" where
  "stored_counter s uid key stat = counter (load (user_stats_file s)) uid key stat"



definition fresh_store :: store where
  "fresh_store = \<lparr>user_stats_file = Unreadable, locked = False, events = []\<rparr>"

section \<open>Job queue and worker\<close>

text \<open>
  A job is the dictionary that the slash command and the buttons put on the queue. Every
  producer sets \<^verbatim>\<open>'type'\<close>; button jobs also set \<^verbatim>\<open>'action'\<close>. The remaining keys are
  only handed on to the handlers.
\<close>

record job =
  jtype :: string
  action :: "string option"
  requester :: int
  prompt :: string
  width :: int
  height :: int
  seed :: "int option"

datatype handler =
  ProcessFluxImage | HandleRandom | HandleRemix | HandleFancy | HandleWide | HandleTall
  | HandleEdit

text \<open>
  The \<^verbatim>\<open>if\<close>/\<^verbatim>\<open>elif\<close> chain of \<^verbatim>\<open>process_queue\<close>. A button job without an
  \<^verbatim>\<open>'action'\<close> key raises \<^verbatim>\<open>KeyError\<close> at \<^verbatim>\<open>item['action']\<close>; a type or an action
  that no branch names falls through and calls nothing.
\<close>

definition dispatch :: "job \<Rightarrow> string + handler option" where
  "dispatch item =
     (if jtype item = ''flux'' then Inr (Some ProcessFluxImage)
      else if jtype item = ''button'' then
        (case action item of
           None \<Rightarrow> Inl ''KeyError: action''
         | Some a \<Rightarrow>
             if a = ''random'' then Inr (Some HandleRandom)
             else if a = ''remix'' then Inr (Some HandleRemix)
             else if a = ''fancy'' then Inr (Some HandleFancy)
             else if a = ''wide'' then Inr (Some HandleWide)
             else if a = ''tall'' then Inr (Some HandleTall)
             else if a = ''edit'' then Inr (Some HandleEdit)
             else Inr None)
      else Inr None)"

text \<open>
  How an awaited handler ends: it returns, or it raises an \<^verbatim>\<open>Exception\<close> (carried as
  its message). \<^verbatim>\<open>BaseException\<close>s that are not \<^verbatim>\<open>Exception\<close>s, such as task
  cancellation, are outside \<^verbatim>\<open>except Exception\<close> and outside this model.
\<close>

datatype outcome = Returned | Raised string

text \<open>
  Where a \<^verbatim>\<open>process_queue\<close> task stands: at the head of the \<^verbatim>\<open>while\<close> loop,
  suspended in \<^verbatim>\<open>await self.get()\<close> on an empty queue, suspended inside a handler, or
  past the loop.
\<close>

datatype worker_pc = LoopHead | Waiting | Running job handler | Exited

text \<open>
  The fields of \<^verbatim>\<open>FluxQueue\<close> (\<open>queue\<close> is the content of the unbounded
  \<^verbatim>\<open>asyncio.Queue\<close>), the control point of every \<^verbatim>\<open>process_queue\<close> task that runs on
  the object, and what these tasks did: the jobs taken off the queue, the handler calls
  begun, the handler calls that ended, and the lines logged by the \<^verbatim>\<open>except\<close> clause.
  \<^verbatim>\<open>on_ready\<close> starts such a task with
  \<^verbatim>\<open>bot.loop.create_task(bot.flux_queue.process_queue())\<close> each time it is called, and
  nothing keeps it from being called again when the gateway session is re-established.
\<close>

record flux_queue =
  queue :: "job list"
  processing :: bool
  shutdown :: bool
  current_size :: int
  tasks :: "worker_pc list"
  dequeued :: "job list"
  calls :: "(job \<times> handler) list"
  finished :: "(job \<times> outcome) list"
  errors :: "string list"

definition init :: flux_queue where
  "init = \<lparr>queue = [], processing = False, shutdown = False, current_size = 0,
            tasks = [], dequeued = [], calls = [], finished = [], errors = []\<rparr>"

text \<open>The launch in \<^verbatim>\<open>on_ready\<close>: one more task, at the head of its loop.\<close>

definition on_ready :: "flux_queue \<Rightarrow> flux_queue" where
  "on_ready q = q\<lparr>tasks := tasks q @ [LoopHead]\<rparr>"

text \<open>\<^verbatim>\<open>put\<close>: the counter goes up, then the item is appended; an unbounded queue never blocks.\<close>

definition put :: "job \<Rightarrow> flux_queue \<Rightarrow> flux_queue" where
  "put item q = q\<lparr>current_size := current_size q + 1, queue := queue q @ [item]\<rparr>"

definition qsize :: "flux_queue \<Rightarrow> int" where
  "qsize q = current_size q"

text \<open>
  \<^verbatim>\<open>initiate_shutdown\<close>: sets the flag, then removes items with
  \<^verbatim>\<open>self._queue.get_nowait()\<close> until the queue is empty. The loop does not go through
  \<^verbatim>\<open>self.get\<close> and does not touch \<^verbatim>\<open>current_size\<close>.
\<close>

fun drain :: "job list \<Rightarrow> job list" where
  "drain [] = []"
| "drain (item # items) = drain items"

definition initiate_shutdown :: "flux_queue \<Rightarrow> flux_queue" where
  "initiate_shutdown q = q\<lparr>shutdown := True, queue := drain (queue q)\<rparr>"

text \<open>
  \<^verbatim>\<open>get\<close>: waits for an item, then the counter goes down. \<open>None\<close> stands for the
  wait on an empty queue.
\<close>

definition get :: "flux_queue \<Rightarrow> (job \<times> flux_queue) option" where
  "get q =
     (case queue q of
        [] \<Rightarrow> None
      | item # items \<Rightarrow> Some (item, q\<lparr>queue := items, current_size := current_size q - 1\<rparr>))"

text \<open>
  \<^verbatim>\<open>item = await self.get()\<close> followed by the dispatch, in task \<open>k\<close>. On an empty
  queue the task stays suspended. Otherwise either the dispatch raises (logged by
  \<^verbatim>\<open>except\<close>, flag cleared by \<^verbatim>\<open>finally\<close>), or no branch matches (flag cleared by
  \<^verbatim>\<open>finally\<close>), or a handler is awaited.
\<close>

definition take_job :: "nat \<Rightarrow> flux_queue \<Rightarrow> flux_queue" where
  "take_job k q =
     (case get q of
        None \<Rightarrow> q\<lparr>tasks := (tasks q)[k := Waiting]\<rparr>
      | Some (item, q0) \<Rightarrow>
          let q1 = q0\<lparr>dequeued := dequeued q0 @ [item]\<rparr>
          in (case dispatch item of
                Inl e \<Rightarrow>
                  q1\<lparr>errors := errors q1 @ [e], processing := False,
                     tasks := (tasks q1)[k := LoopHead]\<rparr>
              | Inr None \<Rightarrow> q1\<lparr>processing := False, tasks := (tasks q1)[k := LoopHead]\<rparr>
              | Inr (Some h) \<Rightarrow>
                  q1\<lparr>calls := calls q1 @ [(item, h)],
                     tasks := (tasks q1)[k := Running item h]\<rparr>))"

text \<open>
  One scheduling of task \<open>k\<close>, from one suspension point to the next. At the loop head:
  leave when \<^verbatim>\<open>_shutdown\<close> is set; when \<^verbatim>\<open>_processing\<close> is set, sleep and
  \<^verbatim>\<open>continue\<close>, which runs \<^verbatim>\<open>finally\<close> and so clears the flag; otherwise set the flag
  and get a job. Inside a handler: the handler ends with the given outcome, a raised
  exception is logged, and \<^verbatim>\<open>finally\<close> clears the flag. A number that names no task
  schedules nothing.
\<close>

definition process_queue_step :: "nat \<Rightarrow> outcome \<Rightarrow> flux_queue \<Rightarrow> flux_queue" where
  "process_queue_step k out q =
     (if length (tasks q) \<le> k then q
      else case tasks q ! k of
        Exited \<Rightarrow> q
      | LoopHead \<Rightarrow>
          if shutdown q then q\<lparr>tasks := (tasks q)[k := Exited]\<rparr>
          else if processing q then q\<lparr>processing := False\<rparr>
          else take_job k (q\<lparr>processing := True\<rparr>)
      | Waiting \<Rightarrow> take_job k q
      | Running item h \<Rightarrow>
          (case out of
             Returned \<Rightarrow>
               q\<lparr>finished := finished q @ [(item, out)], processing := False,
                  tasks := (tasks q)[k := LoopHead]\<rparr>
           | Raised e \<Rightarrow>
               q\<lparr>finished := finished q @ [(item, out)], errors := errors q @ [e],
                  processing := False, tasks := (tasks q)[k := LoopHead]\<rparr>))"

text \<open>
  What can happen to the queue object: a producer puts a job, the shutdown procedure
  runs, \<^verbatim>\<open>on_ready\<close> starts a task, or one of the tasks is scheduled. \<open>run\<close> applies
  a sequence of such events.
\<close>

datatype event = Put job | InitiateShutdown | OnReady | Worker nat outcome

fun step :: "flux_queue \<Rightarrow> event \<Rightarrow> flux_queue" where
  "step q (Put item) = put item q"
| "step q InitiateShutdown = initiate_shutdown q"
| "step q OnReady = on_ready q"
| "step q (Worker k out) = process_queue_step k out q"

definition run :: "event list \<Rightarrow> flux_queue \<Rightarrow> flux_queue" where
  "run evs q = foldl step q evs"

text \<open>The jobs put by a sequence of events, in the order of the puts.\<close>

fun enqueued :: "event list \<Rightarrow> job list" where
  "enqueued [] = []"
| "enqueued (Put item # evs) = item # enqueued evs"
| "enqueued (_ # evs) = enqueued evs"

subsection \<open>Error branches of the image call\<close>

text \<open>
  What \<^verbatim>\<open>generate_flux_image\<close> meets inside its \<^verbatim>\<open>try\<close>: a response with a status, or
  one of the exceptions its \<^verbatim>\<open>except\<close> clauses name.
\<close>

datatype post_result =
  Status int | ClientConnectorError | ClientOSError | ServerTimeoutError | OtherException string

text \<open>
  The requester as the error branches see it: whether the object is a
  \<^verbatim>\<open>discord.Interaction\<close>, and whether sending to it raises.
\<close>

record requester_view =
  is_interaction :: bool
  send_raises :: "string option"

text \<open>
  \<^verbatim>\<open>interaction.followup\<close> is a discord.py \<^verbatim>\<open>Webhook\<close>. That class has no
  \<^verbatim>\<open>is_done\<close> (the method belongs to \<^verbatim>\<open>interaction.response\<close>), so evaluating
  \<^verbatim>\<open>interaction.followup.is_done()\<close> raises \<^verbatim>\<open>AttributeError\<close> with this message.
\<close>

definition attribute_error :: string where
  "attribute_error =
     [CHR 0x27] @ ''Webhook'' @ [CHR 0x27] @ '' object has no attribute ''
     @ [CHR 0x27] @ ''is_done'' @ [CHR 0x27]"

definition followup_is_done :: "string + bool" where
  "followup_is_done = Inl attribute_error"

datatype notice =
  GeneratedImage | FluxServerErrorHTTP int | FluxOffline | FluxTimedOut | UnexpectedError string

datatype log_line =
  LogCompleted | LogServerError int | LogOffline | LogTimedOut | LogUnexpected string
  | LogSendFailed string

record effects =
  sent :: "notice list"
  logged :: "log_line list"

text \<open>
  The three \<^verbatim>\<open>except\<close> clauses share one shape: log, then, for an interaction, try to
  send the notice and log a failure of the send.
\<close>

definition report :: "requester_view \<Rightarrow> log_line \<Rightarrow> notice \<Rightarrow> effects \<Rightarrow> effects" where
  "report r l n e =
     (let e1 = e\<lparr>logged := logged e @ [l]\<rparr>
      in if is_interaction r then
           (case send_raises r of
              None \<Rightarrow> e1\<lparr>sent := sent e1 @ [n]\<rparr>
            | Some err \<Rightarrow> e1\<lparr>logged := logged e1 @ [LogSendFailed err]\<rparr>)
         else e1)"

definition generate_flux_image :: "requester_view \<Rightarrow> post_result \<Rightarrow> effects" where
  "generate_flux_image r res =
     (let e0 = \<lparr>sent = [], logged = []\<rparr> in
      case res of
        Status s \<Rightarrow>
          if s = 200 then
            (case send_raises r of
               None \<Rightarrow> e0\<lparr>sent := [GeneratedImage], logged := [LogCompleted]\<rparr>
             | Some err \<Rightarrow> report r (LogUnexpected err) (UnexpectedError err) e0)
          else
            (let e1 = e0\<lparr>logged := [LogServerError s]\<rparr> in
             case followup_is_done of
               Inl err \<Rightarrow> report r (LogUnexpected err) (UnexpectedError err) e1
             | Inr True \<Rightarrow> e1
             | Inr False \<Rightarrow>
                 (case send_raises r of
                    None \<Rightarrow> e1\<lparr>sent := [FluxServerErrorHTTP s]\<rparr>
                  | Some err \<Rightarrow> report r (LogUnexpected err) (UnexpectedError err) e1))
      | ClientConnectorError \<Rightarrow> report r LogOffline FluxOffline e0
      | ClientOSError \<Rightarrow> report r LogOffline FluxOffline e0
      | ServerTimeoutError \<Rightarrow> report r LogTimedOut FluxTimedOut e0
      | OtherException err \<Rightarrow> report r (LogUnexpected err) (UnexpectedError err) e0)"

text \<open>The handler call that the dispatch chain makes for a job, if it makes one.\<close>

definition handler_call :: "job \<Rightarrow> (job \<times> handler) option" where
  "handler_call item =
     (case dispatch item of Inr (Some h) \<Rightarrow> Some (item, h) | _ \<Rightarrow> None)"

text \<open>Whether a task is suspended inside a handler, and how many tasks are.\<close>

fun in_handler :: "worker_pc \<Rightarrow> bool" where
  "in_handler (Running item h) = True"
| "in_handler _ = False"

definition in_flight :: "flux_queue \<Rightarrow> nat" where
  "in_flight q = length (filter in_handler (tasks q))"

text \<open>
  The state of the object while exactly one task runs on it: the flag is set exactly
  while that task is suspended in \<^verbatim>\<open>get\<close> or inside a handler; the handler calls begun
  are those of the jobs taken off the queue, in that order; and they are the calls that
  ended, followed by the one in flight, if any.
\<close>

definition worker_inv :: "flux_queue \<Rightarrow> bool" where
  "worker_inv q \<longleftrightarrow>
     length (tasks q) = 1
     \<and> (processing q \<longleftrightarrow> hd (tasks q) = Waiting \<or> in_handler (hd (tasks q)))
     \<and> List.map_filter handler_call (dequeued q) = calls q
     \<and> map fst (calls q)
         = map fst (finished q)
           @ (case hd (tasks q) of Running item h \<Rightarrow> [item] | _ \<Rightarrow> [])"

text \<open>
  An upper bound on the schedulings of the one task still needed to empty the queue: two
  for each queued job (take it, end its handler) and one for a handler in flight.
\<close>

definition pending :: "flux_queue \<Rightarrow> nat" where
  "pending q = 2 * length (queue q) + in_flight q"

text \<open>
  Two jobs as the producers build them, for the concrete runs below: the one \<^verbatim>\<open>/flux\<close>
  queues and the one the Remix button queues.
\<close>

definition flux_job :: job where
  "flux_job = \<lparr>jtype = ''flux'', action = None, requester = 1, prompt = ''a cat'',
                width = 1024, height = 1024, seed = None\<rparr>"

definition remix_job :: job where
  "remix_job = \<lparr>jtype = ''button'', action = Some ''remix'', requester = 2,
                 prompt = ''a dog'', width = 512, height = 512, seed = Some 7\<rparr>"

section \<open>Properties: dimension rounding\<close>

lemma round_up_64_bounds:
  fixes v :: int
  shows "v \<le> ((v + 63) div 64) * 64 \<and> ((v + 63) div 64) * 64 < v + 64"
proof -
  have e: "v + 63 = ((v + 63) div 64) * 64 + (v + 63) mod 64" by simp
  have l: "0 \<le> (v + 63) mod 64" by simp
  have u: "(v + 63) mod 64 < 64" by simp
  from e l u show ?thesis by linarith
qed

lemma round_up_64_fixed:
  fixes v :: int
  assumes "v mod 64 = 0"
  shows "((v + 63) div 64) * 64 = v"
proof -
  from assms obtain k where k: "v = 64 * k" by (auto simp: mod_eq_0_iff_dvd)
  have "(64 * k + 63) div 64 = k" by simp
  with k show ?thesis by simp
qed

text \<open>
  C9. For every integer submitted on the edit path: a positive value is rounded up to the
  next multiple of 64 (the result is a multiple of 64, is not below the value, and is
  less than 64 above it), a positive multiple of 64 is unchanged, and every non-positive
  value becomes 64.
\<close>

theorem adjust_to_multiple_of_64_spec:
  "(0 < v \<longrightarrow> adjust_to_multiple_of_64 v mod 64 = 0
             \<and> v \<le> adjust_to_multiple_of_64 v
             \<and> adjust_to_multiple_of_64 v < v + 64)
   \<and> (0 < v \<and> v mod 64 = 0 \<longrightarrow> adjust_to_multiple_of_64 v = v)
   \<and> (v \<le> 0 \<longrightarrow> adjust_to_multiple_of_64 v = 64)"
  using round_up_64_bounds [of v] round_up_64_fixed [of v]
  by (simp add: adjust_to_multiple_of_64_def)

theorem adjust_to_multiple_of_64_spec_witness:
  "(0::int) < 500 \<and> adjust_to_multiple_of_64 500 = 512
   \<and> (512::int) mod 64 = 0 \<and> adjust_to_multiple_of_64 512 = 512
   \<and> (-7::int) \<le> 0 \<and> adjust_to_multiple_of_64 (-7) = 64"
  using adjust_to_multiple_of_64_spec [of 500] adjust_to_multiple_of_64_spec [of 512]
    adjust_to_multiple_of_64_spec [of "-7"]
  by (simp add: adjust_to_multiple_of_64_def)

section \<open>Properties: rate limiter\<close>


lemma recent_idem: "recent now (recent now tss) = recent now tss"
  by (simp add: recent_def)

text \<open>
  C2 (as amended). An owner is admitted and the timestamp table is left exactly as it
  was. A non-owner holding an exempt role is also always admitted, but the wrapper
  prunes that user's window and appends the current time to it.
\<close>

theorem cooldown_owner_and_exempt:
  "(user_id i \<in> set (OWNER_IDS cfg) \<longrightarrow>
      universal_cooldown_check cfg tab i now = (Admitted, tab))
   \<and> (user_id i \<notin> set (OWNER_IDS cfg) \<and> is_exempt cfg i \<longrightarrow>
      universal_cooldown_check cfg tab i now =
        (Admitted, tab (user_id i := recent now (tab (user_id i)) @ [now])))"
  by (simp add: universal_cooldown_check_def Let_def)

theorem cooldown_owner_and_exempt_witness:
  "(7::int) \<in> set [7]
   \<and> universal_cooldown_check
        \<lparr>OWNER_IDS = [7], EXEMPT_ROLES = {''vip''}, MAX_INTERACTIONS_PER_MINUTE = 4\<rparr>
        (\<lambda>_. []) \<lparr>user_id = 7, user = PlainUser\<rparr> 100 = (Admitted, (\<lambda>_. []))
   \<and> (8::int) \<notin> set [7]
   \<and> is_exempt \<lparr>OWNER_IDS = [7], EXEMPT_ROLES = {''vip''}, MAX_INTERACTIONS_PER_MINUTE = 4\<rparr>
        \<lparr>user_id = 8, user = Member [''VIP'']\<rparr>
   \<and> fst (universal_cooldown_check
        \<lparr>OWNER_IDS = [7], EXEMPT_ROLES = {''vip''}, MAX_INTERACTIONS_PER_MINUTE = 4\<rparr>
        (\<lambda>_. []) \<lparr>user_id = 8, user = Member [''VIP'']\<rparr> 100) = Admitted"
  using cooldown_owner_and_exempt
    [of "\<lparr>user_id = 7, user = PlainUser\<rparr>"
        "\<lparr>OWNER_IDS = [7], EXEMPT_ROLES = {''vip''}, MAX_INTERACTIONS_PER_MINUTE = 4\<rparr>"
        "\<lambda>_. []" 100]
    cooldown_owner_and_exempt
    [of "\<lparr>user_id = 8, user = Member [''VIP'']\<rparr>"
        "\<lparr>OWNER_IDS = [7], EXEMPT_ROLES = {''vip''}, MAX_INTERACTIONS_PER_MINUTE = 4\<rparr>"
        "\<lambda>_. []" 100]
  by (simp add: is_exempt_def lower_def lower_char_def)

text \<open>
  C2 as written fails for exempt-role holders: a member with the exempt role
  \<open>vip\<close> and an empty window is admitted at time 100 and afterwards has 100 in the
  window.
\<close>

theorem cooldown_exempt_is_recorded:
  "is_exempt \<lparr>OWNER_IDS = [], EXEMPT_ROLES = {''vip''}, MAX_INTERACTIONS_PER_MINUTE = 4\<rparr>
      \<lparr>user_id = 8, user = Member [''VIP'']\<rparr>
   \<and> snd (universal_cooldown_check
        \<lparr>OWNER_IDS = [], EXEMPT_ROLES = {''vip''}, MAX_INTERACTIONS_PER_MINUTE = 4\<rparr>
        (\<lambda>_. []) \<lparr>user_id = 8, user = Member [''VIP'']\<rparr> 100) 8 = [100]"
  by (simp add: universal_cooldown_check_def is_exempt_def lower_def lower_char_def
      recent_def Let_def)



text \<open>
  Once the window holds exactly the maximum and its oldest entry is 60 seconds old or
  more, the next check of a non-exempt user admits again.
\<close>

lemma cooldown_released:
  assumes "user_id i \<notin> set (OWNER_IDS cfg)" and "\<not> is_exempt cfg i"
    and "int (length (tab (user_id i))) = MAX_INTERACTIONS_PER_MINUTE cfg"
    and "t \<in> set (tab (user_id i))" and "60 \<le> now - t"
  shows "fst (universal_cooldown_check cfg tab i now) = Admitted"
proof -
  from assms(4,5) have "length (recent now (tab (user_id i))) < length (tab (user_id i))"
    unfolding recent_def by (intro length_filter_less[of t]) auto
  with assms(1,2,3) show ?thesis
    by (simp add: universal_cooldown_check_def Let_def)
qed

section \<open>Properties: caches\<close>

text \<open>
  C4 (as amended). URL-content cache: a lookup of a key whose entry is younger than 3600
  seconds uses the stored value, fetches nothing and leaves the cache as it is; a lookup of
  a key whose entry is 3600 seconds old or older behaves exactly as a lookup of an absent
  key (the fetched value is stored with the current time and used). Both clean-up passes
  remove exactly the entries older than 3600 seconds and keep every other entry unchanged.
  Image-description cache: a lookup uses the stored description whatever the age of the
  entry.
\<close>

theorem ttl_caches:
  "(now - t0 < 3600 \<longrightarrow>
      process_url fetched now (c (url \<mapsto> (v, t0)), acc) url
        = (c (url \<mapsto> (v, t0)), append_content v acc))
   \<and> (c url = Some (v, t0) \<and> 3600 \<le> now - t0 \<longrightarrow>
      process_url fetched now (c, acc) url = process_url fetched now (c (url := None), acc) url
      \<and> process_url fetched now (c, acc) url
          = (c (url \<mapsto> (fetched, now)), append_content fetched acc))
   \<and> (c url = Some (v, t0) \<longrightarrow>
      purge_url_cache now c url = (if now - t0 > 3600 then None else Some (v, t0)))
   \<and> (c url = None \<longrightarrow> purge_url_cache now c url = None)
   \<and> (hist mid = Some info \<longrightarrow>
      purge_image_history now hist mid
        = (if now - timestamp info > 3600 then None else Some info))
   \<and> (hist mid = None \<longrightarrow> purge_image_history now hist mid = None)
   \<and> add_image_description (hist (mid \<mapsto> info)) mid text
        = (if strip text = [] then ''[shares an image: '' @ description info @ '']''
           else text @ '' [shares an image: '' @ description info @ '']'')"
  by (simp add: process_url_def URL_CACHE_TTL_def purge_url_cache_def expired_urls_def
      purge_image_history_def old_messages_def add_image_description_def)

theorem ttl_caches_witness:
  "(100::real) - 50 < 3600
   \<and> process_url (Some ''new'') 100 (Map.empty (''u'' \<mapsto> (Some ''old'', 50)), []) ''u''
       = (Map.empty (''u'' \<mapsto> (Some ''old'', 50)), [''old''])
   \<and> (Map.empty (''u'' \<mapsto> (Some ''old'', 50::real))) ''u'' = Some (Some ''old'', 50)
   \<and> (3600::real) \<le> 3650 - 50
   \<and> process_url (Some ''new'') 3650 (Map.empty (''u'' \<mapsto> (Some ''old'', 50)), []) ''u''
       = (Map.empty (''u'' \<mapsto> (Some ''new'', 3650)), [''new''])
   \<and> purge_url_cache 3650 (Map.empty (''u'' \<mapsto> (Some ''old'', 50))) ''u''
       = Some (Some ''old'', 50)
   \<and> purge_url_cache 3651 (Map.empty (''u'' \<mapsto> (Some ''old'', 50))) ''u'' = None"
proof -
  let ?c = "Map.empty (''u'' \<mapsto> (Some ''old'', (50::real)))"
  note fresh = ttl_caches [of 100 50 "Some ''new''" Map.empty "''u''" "Some ''old''" "[]",
      THEN conjunct1]
  note stale = ttl_caches [of 3650 50 "Some ''new''" ?c "''u''" "Some ''old''" "[]",
      THEN conjunct2, THEN conjunct1]
  note keep = ttl_caches [of 3650 50 "Some ''new''" ?c "''u''" "Some ''old''" "[]",
      THEN conjunct2, THEN conjunct2, THEN conjunct1]
  note drop = ttl_caches [of 3651 50 "Some ''new''" ?c "''u''" "Some ''old''" "[]",
      THEN conjunct2, THEN conjunct2, THEN conjunct1]
  have a: "(100::real) - 50 < 3600" by simp
  have b: "?c ''u'' = Some (Some ''old'', 50)" by simp
  have c: "(3600::real) \<le> 3650 - 50" by simp
  from fresh a have 1: "process_url (Some ''new'') 100 (?c, []) ''u'' = (?c, [''old''])"
    by (simp add: append_content_def)
  from stale b c have "process_url (Some ''new'') 3650 (?c, []) ''u''
      = (?c (''u'' \<mapsto> (Some ''new'', 3650)), append_content (Some ''new'') [])"
    by blast
  then have 2: "process_url (Some ''new'') 3650 (?c, []) ''u''
      = (Map.empty (''u'' \<mapsto> (Some ''new'', 3650)), [''new''])"
    by (simp add: append_content_def)
  from keep b have 3: "purge_url_cache 3650 ?c ''u'' = Some (Some ''old'', 50)" by simp
  from drop b have 4: "purge_url_cache 3651 ?c ''u'' = None" by simp
  from a b c 1 2 3 4 show ?thesis by blast
qed

text \<open>
  C4 as written fails for the image-description cache: a context built at time
  10000 for a message whose description was stored at time 0 still carries the
  description, where a miss would leave the bare text; only the clean-up after the loop
  removes the entry.
\<close>

theorem stale_image_description_is_used:
  "fst (fetch_recent_messages
     \<lparr>extract_urls = (\<lambda>_. []), extract_url_content = (\<lambda>_ _. None),
      time_time = (\<lambda>_. 10000), utcnow = 10000\<rparr>
     None
     \<lparr>url_cache = Map.empty,
      image_history = Map.empty (7 \<mapsto>
        \<lparr>description = ''a cat'', author = ''ann'', timestamp = 0, channel_id = 1\<rparr>)\<rparr>
     [\<lparr>msg_id = 7, author_name = ''ann'', author_is_bot = False, msg_content = ''look''\<rparr>])
   = [\<lparr>role = ''user'', content = ''ann: look [shares an image: a cat]''\<rparr>]
   \<and> fst (fetch_recent_messages
     \<lparr>extract_urls = (\<lambda>_. []), extract_url_content = (\<lambda>_ _. None),
      time_time = (\<lambda>_. 10000), utcnow = 10000\<rparr>
     None
     \<lparr>url_cache = Map.empty, image_history = Map.empty\<rparr>
     [\<lparr>msg_id = 7, author_name = ''ann'', author_is_bot = False, msg_content = ''look''\<rparr>])
   = [\<lparr>role = ''user'', content = ''ann: look''\<rparr>]"
  by (simp add: fetch_recent_messages_def process_message_def add_image_description_def
      strip_def is_space_def Let_def)

section \<open>Properties: context assembler\<close>

lemma history_loop_order:
  assumes "background_messages \<noteq> [] \<longrightarrow> 5 \<le> length current_topic_messages"
  shows "(case history_loop out cmid hist st current_topic_messages background_messages msgs of
            (st', cur, bg) \<Rightarrow> cur @ bg)
         = current_topic_messages @ background_messages
           @ map snd (kept out cmid hist st msgs)"
  using assms
proof (induction msgs arbitrary: st current_topic_messages background_messages)
  case Nil
  show ?case by simp
next
  case (Cons msg msgs)
  obtain st' r where pm: "process_message out cmid hist st msg = (st', r)"
    by (cases "process_message out cmid hist st msg")
  show ?case
  proof (cases r)
    case None
    with pm Cons show ?thesis by simp
  next
    case (Some formatted)
    show ?thesis
    proof (cases "length current_topic_messages < 5")
      case True
      with Cons.prems have bg: "background_messages = []" by auto
      have "(case history_loop out cmid hist st' (current_topic_messages @ [formatted])
                    background_messages msgs of (st', cur, bg) \<Rightarrow> cur @ bg)
          = (current_topic_messages @ [formatted]) @ background_messages
            @ map snd (kept out cmid hist st' msgs)"
        by (rule Cons.IH) (simp add: bg)
      with pm Some True bg show ?thesis by simp
    next
      case False
      have "(case history_loop out cmid hist st' current_topic_messages
                    (background_messages @ [formatted]) msgs of (st', cur, bg) \<Rightarrow> cur @ bg)
          = current_topic_messages @ (background_messages @ [formatted])
            @ map snd (kept out cmid hist st' msgs)"
        by (rule Cons.IH) (use False in simp)
      with pm Some False show ?thesis by simp
    qed
  qed
qed

lemma kept_subseq: "subseq (map fst (kept out cmid hist st msgs)) msgs"
proof (induction msgs arbitrary: st)
  case Nil
  show ?case by simp
next
  case (Cons msg msgs)
  obtain st' r where pm: "process_message out cmid hist st msg = (st', r)"
    by (cases "process_message out cmid hist st msg")
  from Cons [of st'] pm show ?case by (cases r) (auto intro: list_emb_Cons)
qed

lemma process_message_formatted:
  assumes "process_message out cmid hist st msg = (st', Some formatted)"
  shows "role formatted = (if author_is_bot msg then ''assistant'' else ''user'')
       \<and> prefix (author_name msg @ '': '') (content formatted)"
  using assms
  by (auto simp: process_message_def Let_def split: if_splits prod.splits)

lemma kept_formatted:
  "(m, f) \<in> set (kept out cmid hist st msgs) \<Longrightarrow>
     role f = (if author_is_bot m then ''assistant'' else ''user'')
     \<and> prefix (author_name m @ '': '') (content f)"
proof (induction msgs arbitrary: st)
  case Nil
  then show ?case by simp
next
  case (Cons msg msgs)
  obtain st' r where pm: "process_message out cmid hist st msg = (st', r)"
    by (cases "process_message out cmid hist st msg")
  show ?case
  proof (cases r)
    case None
    with pm Cons.prems have "(m, f) \<in> set (kept out cmid hist st' msgs)" by simp
    then show ?thesis by (rule Cons.IH)
  next
    case (Some formatted)
    with pm Cons.prems
    have "(m, f) = (msg, formatted) \<or> (m, f) \<in> set (kept out cmid hist st' msgs)"
      by simp
    then show ?thesis
    proof
      assume "(m, f) = (msg, formatted)"
      with pm Some process_message_formatted [of out cmid hist st msg st' formatted]
      show ?thesis by simp
    next
      assume "(m, f) \<in> set (kept out cmid hist st' msgs)"
      then show ?thesis by (rule Cons.IH)
    qed
  qed
qed

lemma fetch_recent_messages_result:
  "fst (fetch_recent_messages out cmid cs history)
     = rev (map snd (kept out cmid (image_history cs)
         \<lparr>cache = url_cache cs, seen_messages = {}, ticks = 0\<rparr> history))"
proof -
  let ?st = "\<lparr>cache = url_cache cs, seen_messages = {}, ticks = 0\<rparr>"
  obtain st' cur bg where
    hl: "history_loop out cmid (image_history cs) ?st [] [] history = (st', cur, bg)"
    by (cases "history_loop out cmid (image_history cs) ?st [] [] history") auto
  from history_loop_order [of "[]" "[]" out cmid "image_history cs" ?st history] hl
  have "cur @ bg = map snd (kept out cmid (image_history cs) ?st history)" by simp
  then have "rev bg @ rev cur = rev (map snd (kept out cmid (image_history cs) ?st history))"
    by (metis rev_append)
  with hl show ?thesis by (simp add: fetch_recent_messages_def Let_def)
qed

lemma subseq_set_mono: "subseq xs ys \<Longrightarrow> set xs \<subseteq> set ys"
  by (induction rule: list_emb.induct) auto

lemma sorted_wrt_subseq:
  "subseq xs ys \<Longrightarrow> sorted_wrt P ys \<Longrightarrow> sorted_wrt P xs"
proof (induction rule: list_emb.induct)
  case (list_emb_Nil ys)
  show ?case by simp
next
  case (list_emb_Cons xs ys y)
  then show ?case by simp
next
  case (list_emb_Cons2 x y xs ys)
  from list_emb_Cons2.hyps(2) have "set xs \<subseteq> set ys" by (rule subseq_set_mono)
  with list_emb_Cons2 show ?case by auto
qed

text \<open>
  C5. For every window yielded newest first (message ids strictly decreasing), the list
  returned by \<^verbatim>\<open>fetch_recent_messages\<close> consists of the formatted messages of the
  surviving messages, oldest first: it is the reverse of the entries in iteration order,
  the surviving messages are a subsequence of the window, their ids are strictly
  increasing along the result, and every entry carries the role and the name prefix of its
  own message. The split into the first five and the rest does not change the order.
\<close>

theorem context_is_chronological:
  assumes "sorted_wrt (\<lambda>a b. msg_id b < msg_id a) history"
  shows "fst (fetch_recent_messages out cmid cs history)
           = map snd (rev (kept out cmid (image_history cs)
               \<lparr>cache = url_cache cs, seen_messages = {}, ticks = 0\<rparr> history))
       \<and> subseq (map fst (kept out cmid (image_history cs)
               \<lparr>cache = url_cache cs, seen_messages = {}, ticks = 0\<rparr> history)) history
       \<and> sorted_wrt (\<lambda>a b. msg_id a < msg_id b)
           (map fst (rev (kept out cmid (image_history cs)
               \<lparr>cache = url_cache cs, seen_messages = {}, ticks = 0\<rparr> history)))
       \<and> (\<forall>(m, f) \<in> set (kept out cmid (image_history cs)
               \<lparr>cache = url_cache cs, seen_messages = {}, ticks = 0\<rparr> history).
             role f = (if author_is_bot m then ''assistant'' else ''user'')
             \<and> prefix (author_name m @ '': '') (content f))"
proof -
  let ?ks = "kept out cmid (image_history cs)
      \<lparr>cache = url_cache cs, seen_messages = {}, ticks = 0\<rparr> history"
  have a: "fst (fetch_recent_messages out cmid cs history) = map snd (rev ?ks)"
    by (simp add: fetch_recent_messages_result rev_map)
  have b: "subseq (map fst ?ks) history" by (rule kept_subseq)
  from b assms have "sorted_wrt (\<lambda>a b. msg_id b < msg_id a) (map fst ?ks)"
    by (rule sorted_wrt_subseq)
  then have c: "sorted_wrt (\<lambda>a b. msg_id a < msg_id b) (map fst (rev ?ks))"
    by (simp add: sorted_wrt_rev flip: rev_map)
  have d: "\<forall>(m, f) \<in> set ?ks.
      role f = (if author_is_bot m then ''assistant'' else ''user'')
      \<and> prefix (author_name m @ '': '') (content f)"
    using kept_formatted by blast
  from a b c d show ?thesis by blast
qed

lemma kept_sample:
  "kept quiet None Map.empty \<lparr>cache = Map.empty, seen_messages = {}, ticks = 0\<rparr>
     sample_history
   = [(sample_history ! 0, \<lparr>role = ''user'', content = ''ann: h''\<rparr>),
      (sample_history ! 2, \<lparr>role = ''assistant'', content = ''soupy: g''\<rparr>),
      (sample_history ! 3, \<lparr>role = ''user'', content = ''ann: f''\<rparr>),
      (sample_history ! 4, \<lparr>role = ''user'', content = ''bob: e''\<rparr>),
      (sample_history ! 6, \<lparr>role = ''user'', content = ''bob: d''\<rparr>),
      (sample_history ! 7, \<lparr>role = ''user'', content = ''ann: c''\<rparr>)]"
  by (simp add: sample_history_def quiet_def process_message_def add_image_description_def
      sublist_code Let_def)

theorem context_is_chronological_witness:
  "sorted_wrt (\<lambda>a b. msg_id b < msg_id a) sample_history
   \<and> fst (fetch_recent_messages quiet None no_caches sample_history)
       = [\<lparr>role = ''user'', content = ''ann: c''\<rparr>,
          \<lparr>role = ''user'', content = ''bob: d''\<rparr>,
          \<lparr>role = ''user'', content = ''bob: e''\<rparr>,
          \<lparr>role = ''user'', content = ''ann: f''\<rparr>,
          \<lparr>role = ''assistant'', content = ''soupy: g''\<rparr>,
          \<lparr>role = ''user'', content = ''ann: h''\<rparr>]"
proof -
  have s: "sorted_wrt (\<lambda>a b. msg_id b < msg_id a) sample_history"
    by (simp add: sample_history_def)
  from context_is_chronological [OF s, of quiet None no_caches] kept_sample s
  show ?thesis by (simp add: no_caches_def)
qed

section \<open>Properties: user statistics\<close>

lemma digits_head: "digits n \<noteq> [] \<and> hd (digits n) \<in> set ''0123456789''"
proof (induction n rule: digits.induct)
  case (1 n)
  show ?case
  proof (cases "n < 10")
    case True
    then have "digit_char n \<in> set ''0123456789''"
      unfolding digit_char_def by (intro nth_mem) simp
    with True show ?thesis by (subst digits.simps, subst digits.simps) simp
  next
    case False
    with 1 have ih: "digits (n div 10) \<noteq> [] \<and> hd (digits (n div 10)) \<in> set ''0123456789''"
      by simp
    have "digits n = digits (n div 10) @ [digit_char (n mod 10)]"
      using False by (subst digits.simps) simp
    with ih show ?thesis by simp
  qed
qed

lemma str_not_global: "str s \<noteq> ''global''"
proof
  assume a: "str s = ''global''"
  show False
  proof (cases "s < 0")
    case True
    with a show False by (simp add: str_def)
  next
    case False
    with a have "digits (nat s) = ''global''" by (simp add: str_def)
    with digits_head [of "nat s"] show False by simp
  qed
qed

lemma entry_counter_zero_bucket:
  "stat_of zero_bucket stat = 0"
  by (simp add: stat_of_def get_stat_def zero_bucket_def)

lemma add_one_names:
  assumes "stat \<in> set stat_names"
  shows "\<exists>b'. add_one stat b = Inr b' \<and> stat_of b' stat = stat_of b stat + 1"
  using assms by (auto simp: stat_names_def add_one_def stat_of_def get_stat_def)

lemma increment_entry_one:
  assumes "stat = ''images_generated'' \<or> stat = ''chat_responses'' \<or> stat = ''mentions''"
    and "servers ud \<noteq> None \<or> given sid"
  shows "\<exists>ud'. increment_entry name stat sid ud = Inr ud'
       \<and> servers ud' \<noteq> None
       \<and> entry_counter ud' ''global'' stat = entry_counter ud ''global'' stat + 1
       \<and> (given sid \<longrightarrow>
            entry_counter ud' (str (the sid)) stat = entry_counter ud (str (the sid)) stat + 1)
       \<and> (\<forall>key. key \<noteq> ''global'' \<and> (given sid \<longrightarrow> key \<noteq> str (the sid)) \<longrightarrow>
            entry_counter ud' key stat = entry_counter ud key stat)"
proof (cases "given sid")
  case True
  then obtain s where s: "sid = Some s" "s \<noteq> 0"
    by (auto simp: given_def split: option.splits)
  have ng: "str s \<noteq> ''global''" "''global'' \<noteq> str s"
    using str_not_global [of s] by auto
  show ?thesis
    using assms(1) True s ng
    by (cases "servers ud"; cases name)
      (auto simp: increment_entry_def Let_def entry_counter_def stat_of_def get_stat_def
        add_one_def zero_bucket_def split: option.splits)
next
  case False
  with assms(2) obtain sv where sv: "servers ud = Some sv" by auto
  show ?thesis
    using assms(1) False sv
    by (cases name)
      (auto simp: increment_entry_def Let_def entry_counter_def stat_of_def get_stat_def
        add_one_def zero_bucket_def split: option.splits)
qed

lemma current_format_update:
  "current_format al \<Longrightarrow> servers v \<noteq> None \<Longrightarrow> current_format (AList.update k v al)"
  by (induction al) (auto simp: current_format_def)

lemma current_format_lookup:
  "current_format al \<Longrightarrow> map_of al k = Some ud \<Longrightarrow> servers ud \<noteq> None"
  by (auto simp: current_format_def list_all_iff dest!: map_of_SomeD)

lemma entry_counter_new_user: "entry_counter new_user key stat = 0"
  by (simp add: entry_counter_def new_user_def entry_counter_zero_bucket)

text \<open>
  One increment on a document in the current format, for one of the three statistics:
  the call reaches the write, the document stays in the current format, the global
  counter of the user goes up by one, the server counter goes up by one when a server id
  is given, and no other bucket of the user changes.
\<close>

lemma increment_stats_counts:
  assumes "stat \<in> set stat_names" and "current_format stats"
  shows "\<exists>stats'. increment_stats gu uid stat sid stats = Inr stats'
       \<and> current_format stats'
       \<and> counter stats' uid ''global'' stat = counter stats uid ''global'' stat + 1
       \<and> (given sid \<longrightarrow>
            counter stats' uid (str (the sid)) stat
              = counter stats uid (str (the sid)) stat + 1)
       \<and> (\<forall>key. key \<noteq> ''global'' \<and> (given sid \<longrightarrow> key \<noteq> str (the sid)) \<longrightarrow>
            counter stats' uid key stat = counter stats uid key stat)"
proof -
  from assms(1)
  have names: "stat = ''images_generated'' \<or> stat = ''chat_responses'' \<or> stat = ''mentions''"
    by (auto simp: stat_names_def)
  let ?k = "str uid"
  let ?stats1 = "if map_of stats ?k = None then AList.update ?k new_user stats else stats"
  obtain ud where ud: "map_of ?stats1 ?k = Some ud"
    and old: "\<And>key. counter stats uid key stat = entry_counter ud key stat"
    and sv: "servers ud \<noteq> None"
    and cf1: "current_format ?stats1"
  proof (cases "map_of stats ?k")
    case None
    show ?thesis
    proof (rule that [of new_user])
      show "map_of ?stats1 ?k = Some new_user" using None by (simp add: update_conv')
      show "counter stats uid key stat = entry_counter new_user key stat" for key
        using None by (simp add: counter_def entry_counter_new_user)
      show "servers new_user \<noteq> None" by (simp add: new_user_def)
      show "current_format ?stats1"
        using None assms(2) by (simp add: current_format_update new_user_def)
    qed
  next
    case (Some ud0)
    show ?thesis
    proof (rule that [of ud0])
      show "map_of ?stats1 ?k = Some ud0" using Some by simp
      show "counter stats uid key stat = entry_counter ud0 key stat" for key
        using Some by (simp add: counter_def)
      show "servers ud0 \<noteq> None" using assms(2) Some by (rule current_format_lookup)
      show "current_format ?stats1" using Some assms(2) by simp
    qed
  qed
  from increment_entry_one [OF names, of ud sid "gu uid"] sv
  obtain ud' where e: "increment_entry (gu uid) stat sid ud = Inr ud'"
    and sv': "servers ud' \<noteq> None"
    and g: "entry_counter ud' ''global'' stat = entry_counter ud ''global'' stat + 1"
    and s: "given sid \<longrightarrow>
        entry_counter ud' (str (the sid)) stat = entry_counter ud (str (the sid)) stat + 1"
    and o: "\<forall>key. key \<noteq> ''global'' \<and> (given sid \<longrightarrow> key \<noteq> str (the sid)) \<longrightarrow>
        entry_counter ud' key stat = entry_counter ud key stat"
    by blast
  let ?stats' = "AList.update ?k ud' ?stats1"
  have r: "increment_stats gu uid stat sid stats = Inr ?stats'"
    using ud e by (simp add: increment_stats_def Let_def)
  have new: "counter ?stats' uid key stat = entry_counter ud' key stat" for key
    by (simp add: counter_def update_conv')
  have cf: "current_format ?stats'" using cf1 sv' by (rule current_format_update)
  show ?thesis
  proof (intro exI [of _ ?stats'] conjI)
    show "increment_stats gu uid stat sid stats = Inr ?stats'" by (rule r)
    show "current_format ?stats'" by (rule cf)
    show "counter ?stats' uid ''global'' stat = counter stats uid ''global'' stat + 1"
      using g by (simp only: new old)
    show "given sid \<longrightarrow>
        counter ?stats' uid (str (the sid)) stat = counter stats uid (str (the sid)) stat + 1"
      using s by (simp only: new old)
    show "\<forall>key. key \<noteq> ''global'' \<and> (given sid \<longrightarrow> key \<noteq> str (the sid)) \<longrightarrow>
        counter ?stats' uid key stat = counter stats uid key stat"
      using o by (simp only: new old)
  qed
qed

lemma counter_empty: "counter [] uid key stat = 0"
  by (simp add: counter_def)

lemma current_format_empty: "current_format []"
  by (simp add: current_format_def)

lemma given_iff: "given sid \<longleftrightarrow> (\<exists>s. sid = Some s \<and> s \<noteq> 0)"
  by (cases sid) (simp_all add: given_def)

text \<open>
  C6. For one of the three statistics and a document in the current format (the only
  format the code writes, and the one \<^verbatim>\<open>read_user_stats\<close> converts an old file to),
  every increment reaches the write with the user's global counter raised by exactly 1;
  the counter of a server bucket is raised by 1 exactly when that server's id is passed
  (\<^verbatim>\<open>if server_id:\<close> takes \<^verbatim>\<open>None\<close> and the id 0, which Discord does not issue, as no
  server); every other bucket of the user keeps its count. Starting from the empty
  document, a global-only increment followed by a server-scoped one for the same user
  leaves the global counter at 2 and the server's counter at 1.
\<close>

theorem stat_increment_counts:
  assumes "stat \<in> set stat_names" and "current_format stats"
  shows "(\<exists>stats'. increment_stats gu uid stat sid stats = Inr stats'
          \<and> current_format stats'
          \<and> counter stats' uid ''global'' stat = counter stats uid ''global'' stat + 1
          \<and> (\<forall>s. sid = Some s \<and> s \<noteq> 0 \<longrightarrow>
                counter stats' uid (str s) stat = counter stats uid (str s) stat + 1)
          \<and> (\<forall>key. key \<noteq> ''global'' \<and> (\<forall>s. sid = Some s \<and> s \<noteq> 0 \<longrightarrow> key \<noteq> str s) \<longrightarrow>
                counter stats' uid key stat = counter stats uid key stat))
       \<and> (\<forall>s. s \<noteq> 0 \<longrightarrow>
            (\<exists>d1 d2. increment_stats gu uid stat None [] = Inr d1
               \<and> increment_stats gu uid stat (Some s) d1 = Inr d2
               \<and> counter d2 uid ''global'' stat = 2
               \<and> counter d2 uid (str s) stat = 1))"
proof (intro conjI allI impI)
  from increment_stats_counts [OF assms, of gu uid sid]
  obtain stats' where r: "increment_stats gu uid stat sid stats = Inr stats'"
    and cf: "current_format stats'"
    and g: "counter stats' uid ''global'' stat = counter stats uid ''global'' stat + 1"
    and s: "given sid \<longrightarrow>
        counter stats' uid (str (the sid)) stat = counter stats uid (str (the sid)) stat + 1"
    and o: "\<forall>key. key \<noteq> ''global'' \<and> (given sid \<longrightarrow> key \<noteq> str (the sid)) \<longrightarrow>
        counter stats' uid key stat = counter stats uid key stat"
    by blast
  have s': "\<forall>s. sid = Some s \<and> s \<noteq> 0 \<longrightarrow>
      counter stats' uid (str s) stat = counter stats uid (str s) stat + 1"
    using s by (auto simp: given_iff)
  have o': "\<forall>key. key \<noteq> ''global'' \<and> (\<forall>s. sid = Some s \<and> s \<noteq> 0 \<longrightarrow> key \<noteq> str s) \<longrightarrow>
      counter stats' uid key stat = counter stats uid key stat"
    using o by (auto simp: given_iff)
  from r cf g s' o'
  show "\<exists>stats'. increment_stats gu uid stat sid stats = Inr stats'
          \<and> current_format stats'
          \<and> counter stats' uid ''global'' stat = counter stats uid ''global'' stat + 1
          \<and> (\<forall>s. sid = Some s \<and> s \<noteq> 0 \<longrightarrow>
                counter stats' uid (str s) stat = counter stats uid (str s) stat + 1)
          \<and> (\<forall>key. key \<noteq> ''global'' \<and> (\<forall>s. sid = Some s \<and> s \<noteq> 0 \<longrightarrow> key \<noteq> str s) \<longrightarrow>
                counter stats' uid key stat = counter stats uid key stat)"
    by (intro exI [of _ stats']) simp
next
  fix s :: int
  assume nz: "s \<noteq> 0"
  from increment_stats_counts [OF assms(1) current_format_empty, of gu uid None]
  obtain d1 where r1: "increment_stats gu uid stat None [] = Inr d1"
    and cf1: "current_format d1"
    and g1: "counter d1 uid ''global'' stat = 1"
    and o1: "\<forall>key. key \<noteq> ''global'' \<longrightarrow> counter d1 uid key stat = 0"
    by (auto simp: counter_empty given_def)
  from increment_stats_counts [OF assms(1) cf1, of gu uid "Some s"] nz
  obtain d2 where r2: "increment_stats gu uid stat (Some s) d1 = Inr d2"
    and g2: "counter d2 uid ''global'' stat = counter d1 uid ''global'' stat + 1"
    and s2: "counter d2 uid (str s) stat = counter d1 uid (str s) stat + 1"
    by (auto simp: given_def)
  from o1 have "counter d1 uid (str s) stat = 0" by (simp add: str_not_global)
  with r1 r2 g1 g2 s2
  show "\<exists>d1 d2. increment_stats gu uid stat None [] = Inr d1
      \<and> increment_stats gu uid stat (Some s) d1 = Inr d2
      \<and> counter d2 uid ''global'' stat = 2
      \<and> counter d2 uid (str s) stat = 1"
    by (intro exI [of _ d1] exI [of _ d2]) simp
qed

lemma str_5: "str 5 = ''5''"
  by (simp add: str_def digits.simps digit_char_def)

theorem stat_increment_counts_witness:
  "''mentions'' \<in> set stat_names \<and> current_format []
   \<and> (5::int) \<noteq> 0
   \<and> (\<exists>d1 d2. increment_stats (\<lambda>_. None) 42 ''mentions'' None [] = Inr d1
        \<and> increment_stats (\<lambda>_. None) 42 ''mentions'' (Some 5) d1 = Inr d2
        \<and> counter d2 42 ''global'' ''mentions'' = 2
        \<and> counter d2 42 ''5'' ''mentions'' = 1)"
proof -
  have a: "''mentions'' \<in> set stat_names" by (simp add: stat_names_def)
  have b: "current_format []" by (simp add: current_format_def)
  from stat_increment_counts [OF a b, of "\<lambda>_. None" 42 None, THEN conjunct2, rule_format, of 5]
  have "\<exists>d1 d2. increment_stats (\<lambda>_. None) 42 ''mentions'' None [] = Inr d1
        \<and> increment_stats (\<lambda>_. None) 42 ''mentions'' (Some 5) d1 = Inr d2
        \<and> counter d2 42 ''global'' ''mentions'' = 2
        \<and> counter d2 42 (str 5) ''mentions'' = 1"
    by simp
  with a b show ?thesis by (simp add: str_5)
qed

section \<open>Properties: the lock around the statistics file\<close>


text \<open>
  What \<^verbatim>\<open>read_user_stats\<close> returns is in the current format whenever the file is
  unreadable, or is in the current format, or is entirely in the old format; only a file
  that mixes users of both formats is returned with users lacking \<^verbatim>\<open>'servers'\<close>.
\<close>

lemma load_gives_current_format:
  assumes "case f of
             Unreadable \<Rightarrow> True
           | Parsed data \<Rightarrow>
               current_format data \<or> \<not> list_ex (\<lambda>(uid, ud). servers ud \<noteq> None) data"
  shows "current_format (load f)"
proof (cases f)
  case Unreadable
  then show ?thesis by (simp add: load_def current_format_def)
next
  case (Parsed data)
  have conv: "current_format (map convert data)"
    by (induction data) (auto simp: current_format_def convert_def)
  from assms Parsed
  have "current_format data \<or> \<not> list_ex (\<lambda>(uid, ud). servers ud \<noteq> None) data" by simp
  then show ?thesis
  proof
    assume "current_format data"
    with Parsed conv show ?thesis by (simp add: load_def)
  next
    assume n: "\<not> list_ex (\<lambda>(uid, ud). servers ud \<noteq> None) data"
    show ?thesis
    proof (cases data)
      case Nil
      with Parsed show ?thesis by (simp add: load_def current_format_def)
    next
      case (Cons e es)
      with n Parsed conv show ?thesis by (simp add: load_def)
    qed
  qed
qed

















lemmas stats_eval =
  increment_user_stat_def enter_read_def enter_write_def read_user_stats_def
  write_user_stats_def load_def increment_stats_def increment_entry_def new_user_def
  zero_bucket_def add_one_def get_stat_def stat_of_def entry_counter_def counter_def
  stored_counter_def given_def fresh_store_def str_def digits.simps digit_char_def
  update_conv' Let_def


text \<open>
  An increment whose write fails is lost without a trace in the file: after one such
  increment and one with a write that succeeds, the counter stands at 1.
\<close>

lemma failed_write_loses_increment:
  "stored_counter
     (snd (schedule (\<lambda>_. None) [(0, False), (1, True)]
        (map (Called 42 ''mentions'') [None, None], fresh_store)))
     42 ''global'' ''mentions'' = 1"
  by (simp add: stats_eval)

section \<open>Properties: job queue and worker\<close>

lemma drain_empty: "drain items = []"
  by (induction items) simp_all

lemma enqueued_append: "enqueued (evs @ evs') = enqueued evs @ enqueued evs'"
  by (induction evs rule: enqueued.induct) simp_all

lemma run_snoc: "run (evs @ [e]) q = step (run evs q) e"
  by (simp add: run_def)

lemma run_append: "run (evs @ evs') q = run evs' (run evs q)"
  by (simp add: run_def)

lemma run_Cons: "run (e # evs) q = run evs (step q e)"
  by (simp add: run_def)

lemma take_job_contents:
  "dequeued (take_job k q) @ queue (take_job k q) = dequeued q @ queue q"
  by (simp add: take_job_def get_def Let_def split: list.split sum.split option.split)

lemma take_job_shutdown: "shutdown (take_job k q) = shutdown q"
  by (simp add: take_job_def get_def Let_def split: list.split sum.split option.split)

lemma process_queue_step_contents:
  "dequeued (process_queue_step k out q) @ queue (process_queue_step k out q)
     = dequeued q @ queue q"
  by (simp add: process_queue_step_def take_job_contents
      split: worker_pc.split outcome.split)

text \<open>
  Whatever the number of tasks: jobs taken off and jobs still queued are, together, the
  jobs put, in put order, as long as no shutdown discarded any; and in every run the jobs
  taken off are jobs that were put, in put order.
\<close>

lemma run_contents_exact:
  "InitiateShutdown \<notin> set evs \<Longrightarrow>
     dequeued (run evs init) @ queue (run evs init) = enqueued evs"
proof (induction evs rule: rev_induct)
  case Nil
  show ?case by (simp add: run_def init_def)
next
  case (snoc e evs)
  then have ih: "dequeued (run evs init) @ queue (run evs init) = enqueued evs" by simp
  show ?case
  proof (cases e)
    case (Put item)
    with ih show ?thesis
      by (simp add: run_snoc enqueued_append put_def)
  next
    case InitiateShutdown
    with snoc.prems show ?thesis by simp
  next
    case OnReady
    with ih show ?thesis
      by (simp add: run_snoc enqueued_append on_ready_def)
  next
    case (Worker k out)
    with ih show ?thesis
      by (simp add: run_snoc enqueued_append process_queue_step_contents)
  qed
qed

lemma run_contents_subseq:
  "subseq (dequeued (run evs init) @ queue (run evs init)) (enqueued evs)"
proof (induction evs rule: rev_induct)
  case Nil
  show ?case by (simp add: run_def init_def)
next
  case (snoc e evs)
  show ?case
  proof (cases e)
    case (Put item)
    from snoc.IH
    have "subseq ((dequeued (run evs init) @ queue (run evs init)) @ [item])
            (enqueued evs @ [item])"
      by (intro list_emb_append_mono) simp_all
    with Put show ?thesis
      by (simp add: run_snoc enqueued_append put_def)
  next
    case InitiateShutdown
    have "subseq (dequeued (run evs init))
            (dequeued (run evs init) @ queue (run evs init))"
      by (rule subseq_rev_drop_many) simp
    then have "subseq (dequeued (run evs init)) (enqueued evs)"
      using snoc.IH by (rule subseq_order.order_trans)
    with InitiateShutdown show ?thesis
      by (simp add: run_snoc enqueued_append initiate_shutdown_def drain_empty)
  next
    case OnReady
    with snoc.IH show ?thesis
      by (simp add: run_snoc enqueued_append on_ready_def)
  next
    case (Worker k out)
    with snoc.IH show ?thesis
      by (simp add: run_snoc enqueued_append process_queue_step_contents)
  qed
qed

lemma run_dequeued_subseq: "subseq (dequeued (run evs init)) (enqueued evs)"
proof -
  have "subseq (dequeued (run evs init))
          (dequeued (run evs init) @ queue (run evs init))"
    by (rule subseq_rev_drop_many) simp
  then show ?thesis
    using run_contents_subseq by (rule subseq_order.order_trans)
qed

subsection \<open>One task\<close>

lemma map_filter_snoc:
  "List.map_filter f (xs @ [x])
     = List.map_filter f xs @ (case f x of None \<Rightarrow> [] | Some y \<Rightarrow> [y])"
  by (simp add: List.map_filter_def split: option.split)

lemma one_task: "length ts = 1 \<Longrightarrow> \<exists>p. ts = [p]"
  by (cases ts) auto

lemma worker_inv_start: "worker_inv (on_ready init)"
  by (simp add: worker_inv_def init_def on_ready_def List.map_filter_def)

lemma worker_inv_put: "worker_inv q \<Longrightarrow> worker_inv (put item q)"
  by (simp add: worker_inv_def put_def)

lemma worker_inv_shutdown: "worker_inv q \<Longrightarrow> worker_inv (initiate_shutdown q)"
  by (simp add: worker_inv_def initiate_shutdown_def)

lemma worker_inv_take_job:
  assumes "worker_inv q" and "processing q" and "\<not> in_handler (hd (tasks q))"
  shows "worker_inv (take_job 0 q)"
proof -
  from assms(1) obtain p where p: "tasks q = [p]"
    using one_task [of "tasks q"] by (auto simp: worker_inv_def)
  show ?thesis
  proof (cases "queue q")
    case Nil
    with assms p show ?thesis
      by (simp add: worker_inv_def take_job_def get_def split: worker_pc.splits)
  next
    case (Cons item items)
    show ?thesis
    proof (cases "dispatch item")
      case (Inl e)
      with Cons assms p show ?thesis
        by (simp add: worker_inv_def take_job_def get_def Let_def map_filter_snoc
            handler_call_def split: worker_pc.splits)
    next
      case (Inr ho)
      show ?thesis
      proof (cases ho)
        case None
        with Inr Cons assms p show ?thesis
          by (simp add: worker_inv_def take_job_def get_def Let_def map_filter_snoc
              handler_call_def split: worker_pc.splits)
      next
        case (Some h)
        with Inr Cons assms p show ?thesis
          by (simp add: worker_inv_def take_job_def get_def Let_def map_filter_snoc
              handler_call_def split: worker_pc.splits)
      qed
    qed
  qed
qed

lemma take_job_ignores_pc:
  "tasks q = [p] \<Longrightarrow> take_job 0 (q\<lparr>tasks := [p']\<rparr>) = take_job 0 q"
  by (simp add: take_job_def get_def Let_def split: list.split sum.split option.split)

lemma worker_inv_process_queue_step:
  assumes "worker_inv q"
  shows "worker_inv (process_queue_step k out q)"
proof (cases k)
  case (Suc k')
  with assms show ?thesis by (simp add: process_queue_step_def worker_inv_def)
next
  case 0
  from assms obtain p where p: "tasks q = [p]"
    using one_task [of "tasks q"] by (auto simp: worker_inv_def)
  show ?thesis
  proof (cases p)
    case LoopHead
    with assms p have np: "\<not> processing q" by (simp add: worker_inv_def)
    show ?thesis
    proof (cases "shutdown q")
      case True
      with LoopHead assms p 0 show ?thesis
        by (simp add: process_queue_step_def worker_inv_def)
    next
      case False
      from assms LoopHead np p
      have "worker_inv (q\<lparr>processing := True, tasks := [Waiting]\<rparr>)"
        by (simp add: worker_inv_def)
      then have "worker_inv (take_job 0 (q\<lparr>processing := True, tasks := [Waiting]\<rparr>))"
        by (rule worker_inv_take_job) simp_all
      moreover have "take_job 0 (q\<lparr>processing := True, tasks := [Waiting]\<rparr>)
          = take_job 0 (q\<lparr>processing := True\<rparr>)"
        using take_job_ignores_pc [of "q\<lparr>processing := True\<rparr>" p Waiting] p by simp
      ultimately show ?thesis
        using LoopHead False np p 0 by (simp add: process_queue_step_def)
    qed
  next
    case Waiting
    with assms p have "processing q" by (simp add: worker_inv_def)
    with assms Waiting p have "worker_inv (take_job 0 q)"
      by (intro worker_inv_take_job) simp_all
    with Waiting p 0 show ?thesis by (simp add: process_queue_step_def)
  next
    case (Running item h)
    with assms p 0 show ?thesis
      by (cases out) (simp_all add: process_queue_step_def worker_inv_def)
  next
    case Exited
    with assms p 0 show ?thesis by (simp add: process_queue_step_def)
  qed
qed

lemma worker_inv_run: "OnReady \<notin> set evs \<Longrightarrow> worker_inv (run (OnReady # evs) init)"
proof (induction evs rule: rev_induct)
  case Nil
  show ?case by (simp add: run_def worker_inv_start)
next
  case (snoc e evs)
  then have ih: "worker_inv (run (OnReady # evs) init)" by simp
  have r: "run (OnReady # evs @ [e]) init = step (run (OnReady # evs) init) e"
    using run_snoc [of "OnReady # evs" e init] by simp
  from snoc.prems ih show ?case
    unfolding r
    by (cases e)
      (simp_all add: worker_inv_put worker_inv_shutdown worker_inv_process_queue_step)
qed

text \<open>
  With one task on the object, at most one handler call is open at any time, and the flag
  is set exactly while the task waits for a job or is inside a handler.
\<close>

lemma one_task_one_handler:
  assumes "OnReady \<notin> set evs"
  shows "in_flight (run (OnReady # evs) init) \<le> 1
       \<and> length (calls (run (OnReady # evs) init))
           \<le> length (finished (run (OnReady # evs) init)) + 1
       \<and> (in_flight (run (OnReady # evs) init) = 1 \<longrightarrow> processing (run (OnReady # evs) init))"
proof -
  let ?r = "run (OnReady # evs) init"
  from assms have inv: "worker_inv ?r" by (rule worker_inv_run)
  then obtain p where p: "tasks ?r = [p]"
    using one_task [of "tasks ?r"] by (auto simp: worker_inv_def)
  from inv p have c: "map fst (calls ?r)
      = map fst (finished ?r) @ (case p of Running item h \<Rightarrow> [item] | _ \<Rightarrow> [])"
    by (simp add: worker_inv_def)
  have "length (map fst (calls ?r)) \<le> length (map fst (finished ?r)) + 1"
    unfolding c by (simp split: worker_pc.split)
  then have l: "length (calls ?r) \<le> length (finished ?r) + 1" by simp
  from inv p have f: "in_handler p \<longrightarrow> processing ?r" by (simp add: worker_inv_def)
  from p l f show ?thesis by (simp add: in_flight_def)
qed

lemma enqueued_workers: "enqueued (map (Worker k) outs) = []"
  by (induction outs) simp_all

lemma take_job_alive:
  "tasks q = [p] \<Longrightarrow> tasks (take_job 0 q) \<noteq> [Exited]"
  by (simp add: take_job_def get_def Let_def split: list.split sum.split option.split)

lemma process_queue_step_alive:
  assumes "\<not> shutdown q" and "tasks q = [p]" and "p \<noteq> Exited"
  shows "\<not> shutdown (process_queue_step 0 out q)
       \<and> tasks (process_queue_step 0 out q) \<noteq> [Exited]"
  using assms take_job_alive [of q p] take_job_alive [of "q\<lparr>processing := True\<rparr>" p]
  by (cases p; cases out) (simp_all add: process_queue_step_def take_job_shutdown)

lemma take_job_pending:
  "tasks q = [p] \<Longrightarrow> \<not> in_handler p \<Longrightarrow> pending (take_job 0 q) \<le> pending q - 1"
  by (simp add: take_job_def get_def pending_def in_flight_def Let_def
      split: list.split sum.split option.split)

lemma process_queue_step_pending:
  assumes "worker_inv q" and "\<not> shutdown q" and "tasks q \<noteq> [Exited]"
  shows "pending (process_queue_step 0 out q) \<le> pending q - 1"
proof -
  from assms(1) obtain p where p: "tasks q = [p]"
    using one_task [of "tasks q"] by (auto simp: worker_inv_def)
  show ?thesis
  proof (cases p)
    case LoopHead
    with assms(1) p have np: "\<not> processing q" by (simp add: worker_inv_def)
    have "pending (take_job 0 (q\<lparr>processing := True\<rparr>))
        \<le> pending (q\<lparr>processing := True\<rparr>) - 1"
      using LoopHead p by (intro take_job_pending [of _ p]) simp_all
    with LoopHead np assms(2) p show ?thesis
      by (simp add: process_queue_step_def pending_def in_flight_def)
  next
    case Waiting
    with p have "pending (take_job 0 q) \<le> pending q - 1"
      by (intro take_job_pending [of _ p]) simp_all
    with Waiting p show ?thesis by (simp add: process_queue_step_def)
  next
    case (Running item h)
    with p show ?thesis
      by (cases out) (simp_all add: process_queue_step_def pending_def in_flight_def)
  next
    case Exited
    with assms(3) p show ?thesis by simp
  qed
qed

lemma run_workers_pending:
  "worker_inv q \<Longrightarrow> \<not> shutdown q \<Longrightarrow> tasks q \<noteq> [Exited] \<Longrightarrow>
     pending (run (map (Worker 0) outs) q) \<le> pending q - length outs"
proof (induction outs arbitrary: q)
  case Nil
  show ?case by (simp add: run_def)
next
  case (Cons out outs)
  let ?n = "process_queue_step 0 out q"
  from Cons.prems(1) obtain p where p: "tasks q = [p]"
    using one_task [of "tasks q"] by (auto simp: worker_inv_def)
  with Cons.prems(3) have pe: "p \<noteq> Exited" by simp
  have inv: "worker_inv ?n" using Cons.prems(1) by (rule worker_inv_process_queue_step)
  have alive: "\<not> shutdown ?n \<and> tasks ?n \<noteq> [Exited]"
    using Cons.prems(2) p pe by (rule process_queue_step_alive)
  have "pending (run (map (Worker 0) outs) ?n) \<le> pending ?n - length outs"
    using inv alive by (intro Cons.IH) simp_all
  moreover have "pending ?n \<le> pending q - 1"
    using Cons.prems by (rule process_queue_step_pending)
  moreover have "run (map (Worker 0) (out # outs)) q = run (map (Worker 0) outs) ?n"
    by (simp add: run_def)
  ultimately show ?case by simp
qed

lemma run_alive:
  "OnReady \<notin> set evs \<Longrightarrow> InitiateShutdown \<notin> set evs \<Longrightarrow>
     \<not> shutdown (run (OnReady # evs) init) \<and> tasks (run (OnReady # evs) init) \<noteq> [Exited]"
proof (induction evs rule: rev_induct)
  case Nil
  show ?case by (simp add: run_def init_def on_ready_def)
next
  case (snoc e evs)
  let ?r = "run (OnReady # evs) init"
  from snoc have ih: "\<not> shutdown ?r \<and> tasks ?r \<noteq> [Exited]" by simp
  from snoc.prems have inv: "worker_inv ?r" by (intro worker_inv_run) simp
  then obtain p where p: "tasks ?r = [p]"
    using one_task [of "tasks ?r"] by (auto simp: worker_inv_def)
  have r: "run (OnReady # evs @ [e]) init = step ?r e"
    using run_snoc [of "OnReady # evs" e init] by simp
  show ?case
  proof (cases e)
    case (Put item)
    with ih show ?thesis unfolding r by (simp add: put_def)
  next
    case InitiateShutdown
    with snoc.prems show ?thesis by simp
  next
    case OnReady
    with snoc.prems show ?thesis by simp
  next
    case (Worker k out)
    show ?thesis
    proof (cases k)
      case 0
      from ih p have "p \<noteq> Exited" by simp
      with ih p process_queue_step_alive [of ?r p out] Worker 0 show ?thesis
        unfolding r by simp
    next
      case (Suc k')
      with Worker ih p show ?thesis unfolding r by (simp add: process_queue_step_def)
    qed
  qed
qed

text \<open>
  With one task and no shutdown, enough further schedulings of the task empty the queue
  whatever the outcomes of the handlers are, raised exceptions included: every job put
  has been taken off exactly once, in put order, every handler call has ended, and the
  task is still in its loop.
\<close>

lemma run_serves_all:
  assumes "OnReady \<notin> set evs" and "InitiateShutdown \<notin> set evs"
    and "2 * length (enqueued evs) + 1 \<le> length outs"
  shows "dequeued (run (OnReady # evs @ map (Worker 0) outs) init) = enqueued evs
       \<and> queue (run (OnReady # evs @ map (Worker 0) outs) init) = []
       \<and> in_flight (run (OnReady # evs @ map (Worker 0) outs) init) = 0
       \<and> map fst (finished (run (OnReady # evs @ map (Worker 0) outs) init))
           = map fst (List.map_filter handler_call (enqueued evs))
       \<and> tasks (run (OnReady # evs @ map (Worker 0) outs) init) \<noteq> [Exited]"
proof -
  let ?start = "run (OnReady # evs) init"
  let ?all = "OnReady # evs @ map (Worker 0) outs"
  let ?end = "run ?all init"
  have q: "?end = run (map (Worker 0) outs) ?start"
    using run_append [of "OnReady # evs" "map (Worker 0) outs" init] by simp
  have inv0: "worker_inv ?start" using assms(1) by (rule worker_inv_run)
  have alive0: "\<not> shutdown ?start \<and> tasks ?start \<noteq> [Exited]"
    using assms(1,2) by (rule run_alive)
  have "dequeued ?start @ queue ?start = enqueued (OnReady # evs)"
    using assms(2) by (intro run_contents_exact) simp
  then have "dequeued ?start @ queue ?start = enqueued evs" by simp
  then have "length (dequeued ?start) + length (queue ?start) = length (enqueued evs)"
    by (metis length_append)
  then have "length (queue ?start) \<le> length (enqueued evs)" by simp
  moreover have "in_flight ?start \<le> 1"
    using one_task_one_handler [OF assms(1)] by simp
  ultimately have "pending ?start \<le> length outs" using assms(3) by (simp add: pending_def)
  moreover have "pending ?end \<le> pending ?start - length outs"
    unfolding q using inv0 alive0 by (intro run_workers_pending) simp_all
  ultimately have p0: "pending ?end = 0" by simp
  then have e: "queue ?end = []" and h: "in_flight ?end = 0"
    by (simp_all add: pending_def)
  have ow: "OnReady \<notin> set (evs @ map (Worker 0) outs)"
    and sw: "InitiateShutdown \<notin> set (evs @ map (Worker 0) outs)"
    using assms(1,2) by auto
  have "InitiateShutdown \<notin> set ?all" using sw by simp
  then have "dequeued ?end @ queue ?end = enqueued ?all" by (rule run_contents_exact)
  with e have d: "dequeued ?end = enqueued evs"
    by (simp add: enqueued_append enqueued_workers)
  have alive: "tasks ?end \<noteq> [Exited]"
    using run_alive [OF ow sw] by simp
  have inv: "worker_inv ?end" using worker_inv_run [OF ow] by simp
  then obtain p where p: "tasks ?end = [p]"
    using one_task [of "tasks ?end"] by (auto simp: worker_inv_def)
  with h have "\<not> in_handler p" by (simp add: in_flight_def split: if_splits)
  then have "(case p of Running item h \<Rightarrow> [item] | _ \<Rightarrow> []) = []"
    by (cases p) simp_all
  with inv p d have f: "map fst (finished ?end)
      = map fst (List.map_filter handler_call (enqueued evs))"
    by (simp add: worker_inv_def)
  from d e h f alive show ?thesis by simp
qed

text \<open>
  An exception raised by the handler of task \<open>k\<close> is caught by the loop: its message is
  logged, the call is recorded as ended, the queue is left as it was, the flag is cleared
  and the task is back at the head of its loop.
\<close>

lemma handler_exception_is_caught:
  assumes "k < length (tasks q)" and "tasks q ! k = Running item h"
  shows "process_queue_step k (Raised e) q
       = q\<lparr>finished := finished q @ [(item, Raised e)], errors := errors q @ [e],
           processing := False, tasks := (tasks q)[k := LoopHead]\<rparr>"
  using assms by (simp add: process_queue_step_def)

lemmas queue_eval =
  run_def put_def initiate_shutdown_def on_ready_def process_queue_step_def take_job_def
  get_def dispatch_def init_def flux_job_def remix_job_def qsize_def handler_call_def
  in_flight_def Let_def

subsection \<open>Two tasks\<close>

text \<open>
  C1 fails on the code once \<^verbatim>\<open>on_ready\<close> has run twice. With two tasks and two jobs
  queued: task 0 sets the flag and takes the first job; task 1 finds the flag set,
  sleeps and \<^verbatim>\<open>continue\<close>s, and the \<^verbatim>\<open>finally\<close> of that iteration clears the flag
  that task 0 had set; in its next iteration task 1 takes the second job. Both handlers
  are then in flight and none has ended. The order in which the jobs were taken is still
  the order in which they were put.
\<close>

theorem two_tasks_two_handlers:
  "tasks (run [OnReady, OnReady, Put flux_job, Put remix_job, Worker 0 Returned] init)
     = [Running flux_job ProcessFluxImage, LoopHead]
   \<and> processing (run [OnReady, OnReady, Put flux_job, Put remix_job, Worker 0 Returned] init)
   \<and> tasks (run [OnReady, OnReady, Put flux_job, Put remix_job, Worker 0 Returned,
                  Worker 1 Returned] init)
       = [Running flux_job ProcessFluxImage, LoopHead]
   \<and> \<not> processing (run [OnReady, OnReady, Put flux_job, Put remix_job, Worker 0 Returned,
                  Worker 1 Returned] init)
   \<and> tasks (run [OnReady, OnReady, Put flux_job, Put remix_job, Worker 0 Returned,
                  Worker 1 Returned, Worker 1 Returned] init)
       = [Running flux_job ProcessFluxImage, Running remix_job HandleRemix]
   \<and> in_flight (run [OnReady, OnReady, Put flux_job, Put remix_job, Worker 0 Returned,
                  Worker 1 Returned, Worker 1 Returned] init) = 2
   \<and> finished (run [OnReady, OnReady, Put flux_job, Put remix_job, Worker 0 Returned,
                  Worker 1 Returned, Worker 1 Returned] init) = []
   \<and> dequeued (run [OnReady, OnReady, Put flux_job, Put remix_job, Worker 0 Returned,
                  Worker 1 Returned, Worker 1 Returned] init) = [flux_job, remix_job]"
  by (simp add: queue_eval)

subsection \<open>The report of a server error\<close>

text \<open>
  For every status other than 200 the status is logged, and the evaluation of
  \<^verbatim>\<open>interaction.followup.is_done()\<close> raises before the message that carries the status
  is sent; the notice with the status is never among the notices sent.
\<close>

lemma status_is_never_sent:
  assumes "s \<noteq> 200"
  shows "FluxServerErrorHTTP s \<notin> set (sent (generate_flux_image r (Status s)))
       \<and> hd (logged (generate_flux_image r (Status s))) = LogServerError s"
  using assms
  by (simp add: generate_flux_image_def followup_is_done_def report_def Let_def
      split: option.split)

text \<open>
  C8 fails on the code at a 503 response: the requester is sent the notice of an
  unexpected error with the text of the \<^verbatim>\<open>AttributeError\<close>, and no notice with the
  status code. The call returns normally, so the worker loop meets no exception and goes
  on with the next job.
\<close>

theorem server_error_status_not_reported:
  "generate_flux_image \<lparr>is_interaction = True, send_raises = None\<rparr> (Status 503)
   = \<lparr>sent = [UnexpectedError attribute_error],
      logged = [LogServerError 503, LogUnexpected attribute_error]\<rparr>"
  by (simp add: generate_flux_image_def followup_is_done_def report_def)

subsection \<open>The size counter\<close>

text \<open>
  Without a shutdown, the counter and the queue agree after every sequence of puts and
  schedulings of any number of tasks.
\<close>

lemma take_job_size:
  "current_size q = int (length (queue q)) \<Longrightarrow>
     current_size (take_job k q) = int (length (queue (take_job k q)))"
  by (simp add: take_job_def get_def Let_def split: list.split sum.split option.split)

lemma process_queue_step_size:
  "current_size q = int (length (queue q)) \<Longrightarrow>
     current_size (process_queue_step k out q)
       = int (length (queue (process_queue_step k out q)))"
  by (simp add: process_queue_step_def take_job_size split: worker_pc.split outcome.split)

lemma qsize_without_shutdown:
  "InitiateShutdown \<notin> set evs \<Longrightarrow>
     qsize (run evs init) = int (length (queue (run evs init)))"
proof (induction evs rule: rev_induct)
  case Nil
  show ?case by (simp add: run_def init_def qsize_def)
next
  case (snoc e evs)
  then have ih: "current_size (run evs init) = int (length (queue (run evs init)))"
    by (simp add: qsize_def)
  show ?case
  proof (cases e)
    case (Put item)
    with ih show ?thesis by (simp add: run_snoc qsize_def put_def)
  next
    case InitiateShutdown
    with snoc.prems show ?thesis by simp
  next
    case OnReady
    with ih show ?thesis by (simp add: run_snoc qsize_def on_ready_def)
  next
    case (Worker k out)
    with ih show ?thesis by (simp add: run_snoc qsize_def process_queue_step_size)
  qed
qed

text \<open>
  C10 fails on the code at a shutdown with a job pending: the drain empties the queue
  without going through \<^verbatim>\<open>get\<close>, so the counter keeps counting the discarded job and
  \<^verbatim>\<open>qsize()\<close> answers 1 for an empty queue.
\<close>

theorem qsize_stale_after_shutdown:
  "queue (run [Put flux_job, InitiateShutdown] init) = []
   \<and> qsize (run [Put flux_job, InitiateShutdown] init) = 1"
  by (simp add: queue_eval)

end
